theory Spec2Isabelle
  imports Main "HOL-Library.Monad_Syntax" "HOL-Library.Tree"
begin

section \<open>Common data: object references, errors, dynamically typed arguments\<close>

text \<open>
  Python objects live in an object store and are handled through references. The store is
  a list of node objects, a reference is an index into it, and \<open>None\<close> is the null
  reference. A constructor call \<open>Node(key)\<close> appends a new object, so that the new
  reference is the length of the store before the call. Objects are never removed from the
  store: a node that was unlinked stays where it is, as it does in Python for as long as
  somebody holds a reference to it.
\<close>

type_synonym addr = nat

datatype error = TypeError | ValueError | AttributeError

text \<open>The values that the untyped \<open>mode\<close> parameter can hold: a string, or something else.\<close>

datatype pyobj = PyStr string | PyInt int | PyNone

text \<open>The numeric three-way comparison that the concrete scenarios pass as \<open>cmp_fn\<close>.\<close>

definition int_cmp :: "int \<Rightarrow> int \<Rightarrow> int" where
  "int_cmp v1 v2 = (if v1 < v2 then - 1 else if v1 = v2 then 0 else 1)"

section \<open>dlls.py: the doubly linked-list stack\<close>

text \<open>\<open>CMPValues\<close>: the integers that \<open>cmp_fn\<close> is expected to return.\<close>

definition LESS :: int where "LESS = - 1"
definition EQUAL :: int where "EQUAL = 0"
definition GREATER :: int where "GREATER = 1"

record 'k dlls_node =
  key :: 'k
  "next" :: "addr option"
  prev :: "addr option"

record 'k dlls =
  cmp_fn :: "'k \<Rightarrow> 'k \<Rightarrow> int"
  head :: "addr option"
  tail :: "addr option"
  heap :: "'k dlls_node list"

text \<open>\<open>DLLS.__init__\<close>; a \<open>cmp_fn\<close> that is not callable is excluded by the type.\<close>

definition DLLS_init :: "('k \<Rightarrow> 'k \<Rightarrow> int) \<Rightarrow> 'k dlls" where
  "DLLS_init f = \<lparr>dlls.cmp_fn = f, head = None, tail = None, dlls.heap = []\<rparr>"

definition is_empty :: "'k dlls \<Rightarrow> bool" where
  "is_empty s = (head s = None \<and> tail s = None)"

text \<open>\<open>DLLS.push\<close>: returns \<open>self.tail\<close> and the new state.\<close>

definition push :: "'k \<Rightarrow> 'k dlls \<Rightarrow> addr option \<times> 'k dlls" where
  "push new_key s =
     (let new_tail = length (dlls.heap s);
          h1 = dlls.heap s @ [\<lparr>dlls_node.key = new_key, next = None, prev = tail s\<rparr>];
          s' = (case tail s of
                  None \<Rightarrow> s\<lparr>head := Some new_tail, tail := Some new_tail, dlls.heap := h1\<rparr>
                | Some t \<Rightarrow>
                    s\<lparr>tail := Some new_tail,
                      dlls.heap := h1[t := (h1 ! t)\<lparr>next := Some new_tail\<rparr>]\<rparr>)
      in (tail s', s'))"

text \<open>
  \<open>DLLS.pop\<close>: the bare \<open>return\<close> on an empty stack yields \<open>None\<close>; otherwise the
  result is the new \<open>self.tail\<close>. Reading \<open>old_tail.prev\<close> when \<open>tail\<close> is \<open>None\<close>
  (and \<open>head\<close> is not) raises AttributeError in Python.
\<close>

definition pop :: "'k dlls \<Rightarrow> (error + addr option) \<times> 'k dlls" where
  "pop s =
     (if is_empty s then (Inr None, s)
      else case tail s of
        None \<Rightarrow> (Inl AttributeError, s)
      | Some old_tail \<Rightarrow>
          let s1 = s\<lparr>tail := prev (dlls.heap s ! old_tail)\<rparr>;
              s2 = (case tail s1 of
                      None \<Rightarrow> s1\<lparr>head := None\<rparr>
                    | Some t \<Rightarrow>
                        s1\<lparr>dlls.heap := (dlls.heap s1)[t := (dlls.heap s1 ! t)\<lparr>next := None\<rparr>]\<rparr>)
          in (Inr (tail s2), s2))"

text \<open>
  \<open>DLLS.__iterative_search\<close>: the \<open>while (curr)\<close> loop, started at \<open>self.head\<close>. The
  outer \<open>option\<close> is \<open>None\<close> when the loop does not return.
\<close>

partial_function (option) DLLS_iterative_loop ::
  "'k dlls \<Rightarrow> 'k \<Rightarrow> addr option \<Rightarrow> addr option option" where
  "DLLS_iterative_loop s target_key cur =
     (case cur of
        None \<Rightarrow> Some None
      | Some c \<Rightarrow>
          if dlls.cmp_fn s (dlls_node.key (dlls.heap s ! c)) target_key = EQUAL then Some (Some c)
          else DLLS_iterative_loop s target_key (next (dlls.heap s ! c)))"

declare DLLS_iterative_loop.simps [code]

definition DLLS_iterative_search :: "'k dlls \<Rightarrow> 'k \<Rightarrow> addr option option" where
  "DLLS_iterative_search s target_key = DLLS_iterative_loop s target_key (head s)"

text \<open>\<open>DLLS.__recursive_search\<close>.\<close>

partial_function (option) DLLS_recursive_search ::
  "'k dlls \<Rightarrow> 'k \<Rightarrow> addr option \<Rightarrow> addr option option" where
  "DLLS_recursive_search s target_key self_head =
     (case self_head of
        None \<Rightarrow> Some None
      | Some c \<Rightarrow>
          if dlls.cmp_fn s (dlls_node.key (dlls.heap s ! c)) target_key = EQUAL then Some (Some c)
          else DLLS_recursive_search s target_key (next (dlls.heap s ! c)))"

declare DLLS_recursive_search.simps [code]

text \<open>\<open>DLLS.search\<close>: the stack is only read, so no state is returned.\<close>

definition DLLS_search :: "'k dlls \<Rightarrow> 'k \<Rightarrow> pyobj \<Rightarrow> (error + addr option) option" where
  "DLLS_search s target_key mode =
     (case mode of
        PyStr m \<Rightarrow>
          if m = ''i'' then map_option Inr (DLLS_iterative_search s target_key)
          else if m = ''r'' then map_option Inr (DLLS_recursive_search s target_key (head s))
          else Some (Inl ValueError)
      | _ \<Rightarrow> Some (Inl TypeError))"

text \<open>The stacks that \<open>push\<close> and \<open>pop\<close> can build from an empty one.\<close>

inductive reachable :: "'k dlls \<Rightarrow> bool" where
  r_init: "reachable (DLLS_init f)"
| r_push: "reachable s \<Longrightarrow> reachable (snd (push k s))"
| r_pop: "reachable s \<Longrightarrow> reachable (snd (pop s))"

text \<open>The nodes of the list: those that the \<open>next\<close> references reach from \<open>head\<close>.\<close>

inductive in_list :: "'k dlls \<Rightarrow> addr \<Rightarrow> bool" where
  il_head: "head s = Some a \<Longrightarrow> in_list s a"
| il_next: "in_list s a \<Longrightarrow> next (dlls.heap s ! a) = Some b \<Longrightarrow> in_list s b"

text \<open>The nodes that the \<open>prev\<close> references reach from \<open>tail\<close>.\<close>

inductive in_list_back :: "'k dlls \<Rightarrow> addr \<Rightarrow> bool" where
  ib_tail: "tail s = Some a \<Longrightarrow> in_list_back s a"
| ib_prev: "in_list_back s b \<Longrightarrow> prev (dlls.heap s ! b) = Some a \<Longrightarrow> in_list_back s a"

text \<open>A node of the stack: one that is reached from either end.\<close>

definition list_node :: "'k dlls \<Rightarrow> addr \<Rightarrow> bool" where
  "list_node s a = (in_list s a \<or> in_list_back s a)"

text \<open>The key of the node that an operation returned, if it returned a node.\<close>

definition returned_key :: "(error + addr option) \<times> 'k dlls \<Rightarrow> 'k option" where
  "returned_key r =
     (case fst r of
        Inr (Some a) \<Rightarrow> Some (dlls_node.key (dlls.heap (snd r) ! a))
      | _ \<Rightarrow> None)"

text \<open>The scenario's stack: 1, 2 and 3 pushed in this order onto an empty stack.\<close>

definition stack123 :: "int dlls" where
  "stack123 = snd (push 3 (snd (push 2 (snd (push 1 (DLLS_init int_cmp))))))"

section \<open>bst.py: the binary search tree\<close>

record 'k bst_node =
  key :: 'k
  parent :: "addr option"
  left_child :: "addr option"
  right_child :: "addr option"

record 'k bst =
  cmp_fn :: "'k \<Rightarrow> 'k \<Rightarrow> int"
  root :: "addr option"
  heap :: "'k bst_node list"

text \<open>\<open>BST.__init__\<close>.\<close>

definition BST_init :: "('k \<Rightarrow> 'k \<Rightarrow> int) \<Rightarrow> 'k bst" where
  "BST_init f = \<lparr>bst.cmp_fn = f, root = None, bst.heap = []\<rparr>"

text \<open>\<open>BST.Node.__init__\<close>: a new object with the key and three null references.\<close>

definition BST_Node :: "'k \<Rightarrow> 'k bst \<Rightarrow> addr \<times> 'k bst" where
  "BST_Node k s =
     (length (bst.heap s),
      s\<lparr>bst.heap := bst.heap s @
          [\<lparr>bst_node.key = k, parent = None, left_child = None, right_child = None\<rparr>]\<rparr>)"

text \<open>The property setters of \<open>BST.Node\<close>, as writes to the object store.\<close>

definition set_parent :: "'k bst \<Rightarrow> addr \<Rightarrow> addr option \<Rightarrow> 'k bst" where
  "set_parent s a v = s\<lparr>bst.heap := (bst.heap s)[a := (bst.heap s ! a)\<lparr>parent := v\<rparr>]\<rparr>"

definition set_left_child :: "'k bst \<Rightarrow> addr \<Rightarrow> addr option \<Rightarrow> 'k bst" where
  "set_left_child s a v = s\<lparr>bst.heap := (bst.heap s)[a := (bst.heap s ! a)\<lparr>left_child := v\<rparr>]\<rparr>"

definition set_right_child :: "'k bst \<Rightarrow> addr \<Rightarrow> addr option \<Rightarrow> 'k bst" where
  "set_right_child s a v = s\<lparr>bst.heap := (bst.heap s)[a := (bst.heap s ! a)\<lparr>right_child := v\<rparr>]\<rparr>"

text \<open>The key stored in a node.\<close>

definition key_at :: "'k bst \<Rightarrow> addr \<Rightarrow> 'k" where
  "key_at s a = bst_node.key (bst.heap s ! a)"

text \<open>
  \<open>BST.__iterative_insert\<close>, STEP 2: the \<open>while (curr)\<close> loop over \<open>prev\<close> and \<open>curr\<close>;
  its result is the final \<open>prev\<close>.
\<close>

partial_function (option) insert_loop ::
  "'k bst \<Rightarrow> addr \<Rightarrow> addr option \<Rightarrow> addr option \<Rightarrow> addr option option" where
  "insert_loop s new_node prv cur =
     (case cur of
        None \<Rightarrow> Some prv
      | Some c \<Rightarrow>
          if bst.cmp_fn s (key_at s new_node) (key_at s c) = LESS
          then insert_loop s new_node (Some c) (left_child (bst.heap s ! c))
          else insert_loop s new_node (Some c) (right_child (bst.heap s ! c)))"

declare insert_loop.simps [code]

text \<open>\<open>BST.__iterative_insert\<close>, STEP 3 and STEP 4: the writes once \<open>prev\<close> is known.\<close>

definition insert_link :: "'k bst \<Rightarrow> addr \<Rightarrow> addr option \<Rightarrow> 'k bst" where
  "insert_link s new_node prv =
     (let s1 = set_parent s new_node prv
      in case prv of
           None \<Rightarrow> s1\<lparr>root := Some new_node\<rparr>
         | Some p \<Rightarrow>
             if bst.cmp_fn s1 (key_at s1 new_node) (key_at s1 p) = LESS
             then set_left_child s1 p (Some new_node)
             else set_right_child s1 p (Some new_node))"

definition iterative_insert :: "'k bst \<Rightarrow> addr \<Rightarrow> (addr \<times> 'k bst) option" where
  "iterative_insert s new_node =
     do { prv \<leftarrow> insert_loop s new_node None (root s);
          Some (new_node, insert_link s new_node prv) }"

text \<open>
  \<open>BST.__recursive_insert\<close>: returns the reference that the caller stores in the child
  slot it descended through, and the state after the writes.
\<close>

partial_function (option) recursive_insert ::
  "'k bst \<Rightarrow> addr \<Rightarrow> addr option \<Rightarrow> addr option \<Rightarrow> (addr \<times> 'k bst) option" where
  "recursive_insert s new_node rt root_parent =
     (case rt of
        None \<Rightarrow> Some (new_node, set_parent s new_node root_parent)
      | Some r \<Rightarrow>
          if bst.cmp_fn s (key_at s new_node) (key_at s r) = LESS
          then do { (res, s') \<leftarrow> recursive_insert s new_node (left_child (bst.heap s ! r)) (Some r);
                    Some (r, set_left_child s' r (Some res)) }
          else do { (res, s') \<leftarrow> recursive_insert s new_node (right_child (bst.heap s ! r)) (Some r);
                    Some (r, set_right_child s' r (Some res)) })"

declare recursive_insert.simps [code]

text \<open>
  \<open>BST.insert_node\<close>: the node is constructed first, then \<open>mode\<close> is examined. The state
  is returned in every case, so that what a failed call leaves behind can be read off.
\<close>

definition insert_node :: "'k \<Rightarrow> pyobj \<Rightarrow> 'k bst \<Rightarrow> ((error + addr) \<times> 'k bst) option" where
  "insert_node new_key mode s =
     (case BST_Node new_key s of (new_node, s1) \<Rightarrow>
        (case mode of
           PyStr m \<Rightarrow>
             if m = ''i'' then
               do { (res, s2) \<leftarrow> iterative_insert s1 new_node; Some (Inr res, s2) }
             else if m = ''r'' then
               do { (rt, s2) \<leftarrow> recursive_insert s1 new_node (root s1) None;
                    Some (Inr new_node, s2\<lparr>root := Some rt\<rparr>) }
             else Some (Inl ValueError, s1)
         | _ \<Rightarrow> Some (Inl TypeError, s1)))"

text \<open>\<open>BST.min_node\<close> and \<open>BST.max_node\<close>; a null argument raises TypeError.\<close>

partial_function (option) min_loop :: "'k bst \<Rightarrow> addr \<Rightarrow> addr option" where
  "min_loop s curr_node =
     (case left_child (bst.heap s ! curr_node) of
        None \<Rightarrow> Some curr_node
      | Some l \<Rightarrow> min_loop s l)"

declare min_loop.simps [code]

definition min_node :: "'k bst \<Rightarrow> addr option \<Rightarrow> (error + addr) option" where
  "min_node s rt = (case rt of None \<Rightarrow> Some (Inl TypeError) | Some r \<Rightarrow> map_option Inr (min_loop s r))"

partial_function (option) max_loop :: "'k bst \<Rightarrow> addr \<Rightarrow> addr option" where
  "max_loop s curr_node =
     (case right_child (bst.heap s ! curr_node) of
        None \<Rightarrow> Some curr_node
      | Some r \<Rightarrow> max_loop s r)"

declare max_loop.simps [code]

definition max_node :: "'k bst \<Rightarrow> addr option \<Rightarrow> (error + addr) option" where
  "max_node s rt = (case rt of None \<Rightarrow> Some (Inl TypeError) | Some r \<Rightarrow> map_option Inr (max_loop s r))"

text \<open>
  \<open>BST.predecessor_node\<close>: CASE A delegates to \<open>max_node\<close>, CASE B is the loop that climbs
  while \<open>node is predecessor.left_child\<close>.
\<close>

partial_function (option) predecessor_loop ::
  "'k bst \<Rightarrow> addr \<Rightarrow> addr option \<Rightarrow> addr option option" where
  "predecessor_loop s node predecessor =
     (case predecessor of
        None \<Rightarrow> Some None
      | Some p \<Rightarrow>
          if left_child (bst.heap s ! p) = Some node
          then predecessor_loop s p (parent (bst.heap s ! p))
          else Some (Some p))"

declare predecessor_loop.simps [code]

definition predecessor_node :: "'k bst \<Rightarrow> addr option \<Rightarrow> (error + addr option) option" where
  "predecessor_node s node =
     (case node of
        None \<Rightarrow> Some (Inl TypeError)
      | Some n \<Rightarrow>
          (case left_child (bst.heap s ! n) of
             Some l \<Rightarrow> map_option (map_sum id Some) (max_node s (Some l))
           | None \<Rightarrow> map_option Inr (predecessor_loop s n (parent (bst.heap s ! n)))))"

text \<open>\<open>BST.successor_node\<close>, the mirror image.\<close>

partial_function (option) successor_loop ::
  "'k bst \<Rightarrow> addr \<Rightarrow> addr option \<Rightarrow> addr option option" where
  "successor_loop s node successor =
     (case successor of
        None \<Rightarrow> Some None
      | Some p \<Rightarrow>
          if right_child (bst.heap s ! p) = Some node
          then successor_loop s p (parent (bst.heap s ! p))
          else Some (Some p))"

declare successor_loop.simps [code]

definition successor_node :: "'k bst \<Rightarrow> addr option \<Rightarrow> (error + addr option) option" where
  "successor_node s node =
     (case node of
        None \<Rightarrow> Some (Inl TypeError)
      | Some n \<Rightarrow>
          (case right_child (bst.heap s ! n) of
             Some r \<Rightarrow> map_option (map_sum id Some) (min_node s (Some r))
           | None \<Rightarrow> map_option Inr (successor_loop s n (parent (bst.heap s ! n)))))"

text \<open>
  The traversals call \<open>operation\<close>, which acts on the world outside the tree. The world
  has the standard output, where the default operation \<open>print\<close> writes, and whatever
  state the caller's own callback works on.
\<close>

record ('k, 'u) world =
  stdout :: "'k list"
  user :: 'u

definition print :: "'k \<Rightarrow> ('k, 'u) world \<Rightarrow> ('k, 'u) world" where
  "print k w = w\<lparr>stdout := stdout w @ [k]\<rparr>"

text \<open>
  \<open>BST.inorder_walk\<close>, \<open>BST.preorder_walk\<close>, \<open>BST.postorder_walk\<close>: the recursive calls
  are made without an \<open>operation\<close> argument, so they run with the default, \<open>print\<close>.
\<close>

partial_function (option) inorder_walk ::
  "'k bst \<Rightarrow> addr option \<Rightarrow> ('k \<Rightarrow> ('k, 'u) world \<Rightarrow> ('k, 'u) world) \<Rightarrow> ('k, 'u) world
     \<Rightarrow> ('k, 'u) world option" where
  "inorder_walk s rt operation w =
     (case rt of
        None \<Rightarrow> Some w
      | Some r \<Rightarrow>
          do { w1 \<leftarrow> inorder_walk s (left_child (bst.heap s ! r)) print w;
               inorder_walk s (right_child (bst.heap s ! r)) print (operation (key_at s r) w1) })"

declare inorder_walk.simps [code]

partial_function (option) preorder_walk ::
  "'k bst \<Rightarrow> addr option \<Rightarrow> ('k \<Rightarrow> ('k, 'u) world \<Rightarrow> ('k, 'u) world) \<Rightarrow> ('k, 'u) world
     \<Rightarrow> ('k, 'u) world option" where
  "preorder_walk s rt operation w =
     (case rt of
        None \<Rightarrow> Some w
      | Some r \<Rightarrow>
          do { w1 \<leftarrow> preorder_walk s (left_child (bst.heap s ! r)) print (operation (key_at s r) w);
               preorder_walk s (right_child (bst.heap s ! r)) print w1 })"

declare preorder_walk.simps [code]

partial_function (option) postorder_walk ::
  "'k bst \<Rightarrow> addr option \<Rightarrow> ('k \<Rightarrow> ('k, 'u) world \<Rightarrow> ('k, 'u) world) \<Rightarrow> ('k, 'u) world
     \<Rightarrow> ('k, 'u) world option" where
  "postorder_walk s rt operation w =
     (case rt of
        None \<Rightarrow> Some w
      | Some r \<Rightarrow>
          do { w1 \<leftarrow> postorder_walk s (left_child (bst.heap s ! r)) print w;
               w2 \<leftarrow> postorder_walk s (right_child (bst.heap s ! r)) print w1;
               Some (operation (key_at s r) w2) })"

declare postorder_walk.simps [code]

text \<open>\<open>BST.__iterative_search\<close>: the \<open>while (root != None)\<close> loop.\<close>

partial_function (option) BST_iterative_loop ::
  "'k bst \<Rightarrow> 'k \<Rightarrow> addr option \<Rightarrow> addr option option" where
  "BST_iterative_loop s target_key rt =
     (case rt of
        None \<Rightarrow> Some None
      | Some r \<Rightarrow>
          if bst.cmp_fn s target_key (key_at s r) = LESS
          then BST_iterative_loop s target_key (left_child (bst.heap s ! r))
          else if bst.cmp_fn s target_key (key_at s r) = GREATER
          then BST_iterative_loop s target_key (right_child (bst.heap s ! r))
          else Some (Some r))"

declare BST_iterative_loop.simps [code]

definition BST_iterative_search :: "'k bst \<Rightarrow> 'k \<Rightarrow> addr option option" where
  "BST_iterative_search s target_key = BST_iterative_loop s target_key (root s)"

text \<open>
  \<open>BST.__recursive_search\<close>: RECURSIVE CASE 1 compares \<open>root.key\<close> with \<open>root.key\<close>, as
  the source does.
\<close>

partial_function (option) BST_recursive_search ::
  "'k bst \<Rightarrow> addr option \<Rightarrow> 'k \<Rightarrow> addr option option" where
  "BST_recursive_search s rt target_key =
     (case rt of
        None \<Rightarrow> Some None
      | Some r \<Rightarrow>
          if bst.cmp_fn s (key_at s r) target_key = EQUAL then Some (Some r)
          else if bst.cmp_fn s (key_at s r) (key_at s r) = GREATER
          then BST_recursive_search s (right_child (bst.heap s ! r)) target_key
          else BST_recursive_search s (left_child (bst.heap s ! r)) target_key)"

declare BST_recursive_search.simps [code]

text \<open>\<open>BST.search\<close>: the tree is only read.\<close>

definition BST_search :: "'k bst \<Rightarrow> 'k \<Rightarrow> pyobj \<Rightarrow> (error + addr option) option" where
  "BST_search s target_key mode =
     (case mode of
        PyStr m \<Rightarrow>
          if m = ''i'' then map_option Inr (BST_iterative_search s target_key)
          else if m = ''r'' then map_option Inr (BST_recursive_search s (root s) target_key)
          else Some (Inl ValueError)
      | _ \<Rightarrow> Some (Inl TypeError))"

text \<open>
  A caller's loop: the keys inserted one after the other with the same \<open>mode\<close>, stopping
  at the first call that raises.
\<close>

fun insert_all :: "pyobj \<Rightarrow> 'k list \<Rightarrow> 'k bst \<Rightarrow> (error + 'k bst) option" where
  "insert_all mode [] s = Some (Inr s)"
| "insert_all mode (k # ks) s =
     do { (res, s') \<leftarrow> insert_node k mode s;
          case res of Inl e \<Rightarrow> Some (Inl e) | Inr a \<Rightarrow> insert_all mode ks s' }"

text \<open>
  The shape of a tree in the object store: \<open>tree_at h p par t\<close> says that the reference
  \<open>p\<close> is the root of a tree whose nodes sit at the references recorded in \<open>t\<close>, with
  child references as in \<open>t\<close>, and with \<open>par\<close> as the parent reference of its root and
  each node as the parent reference of its children.
\<close>

fun tree_at :: "'k bst_node list \<Rightarrow> addr option \<Rightarrow> addr option \<Rightarrow> addr tree \<Rightarrow> bool" where
  "tree_at h p par Leaf = (p = None)"
| "tree_at h p par (Node l a r) =
     (p = Some a \<and> a < length h \<and> parent (h ! a) = par \<and>
      tree_at h (left_child (h ! a)) (Some a) l \<and>
      tree_at h (right_child (h ! a)) (Some a) r)"

text \<open>A well-formed tree: \<open>root\<close> is the root of a tree without parent, no node occurs twice.\<close>

definition wf_bst :: "'k bst \<Rightarrow> addr tree \<Rightarrow> bool" where
  "wf_bst s t = (tree_at (bst.heap s) (root s) None t \<and> distinct (inorder t))"

text \<open>Whether a value passed as \<open>mode\<close> is a string.\<close>

definition is_str :: "pyobj \<Rightarrow> bool" where
  "is_str x = (case x of PyStr m \<Rightarrow> True | _ \<Rightarrow> False)"

text \<open>
  The tree that holds 5 and 8, the same tree after a second 5 was inserted, and the tree
  that holds 2, 1 and 3.
\<close>

definition tree_5_8 :: "int bst" where
  "tree_5_8 = \<lparr>bst.cmp_fn = int_cmp, root = Some 0, bst.heap =
      [\<lparr>bst_node.key = 5, parent = None, left_child = None, right_child = Some 1\<rparr>,
       \<lparr>bst_node.key = 8, parent = Some 0, left_child = None, right_child = None\<rparr>]\<rparr>"

definition tree_5_8_5 :: "int bst" where
  "tree_5_8_5 = \<lparr>bst.cmp_fn = int_cmp, root = Some 0, bst.heap =
      [\<lparr>bst_node.key = 5, parent = None, left_child = None, right_child = Some 1\<rparr>,
       \<lparr>bst_node.key = 8, parent = Some 0, left_child = Some 2, right_child = None\<rparr>,
       \<lparr>bst_node.key = 5, parent = Some 1, left_child = None, right_child = None\<rparr>]\<rparr>"

definition tree_2_1_3 :: "int bst" where
  "tree_2_1_3 = \<lparr>bst.cmp_fn = int_cmp, root = Some 0, bst.heap =
      [\<lparr>bst_node.key = 2, parent = None, left_child = Some 1, right_child = Some 2\<rparr>,
       \<lparr>bst_node.key = 1, parent = Some 0, left_child = None, right_child = None\<rparr>,
       \<lparr>bst_node.key = 3, parent = Some 0, left_child = None, right_child = None\<rparr>]\<rparr>"

text \<open>A caller's callback that appends each key it is given to a list of its own.\<close>

definition record_key :: "'k \<Rightarrow> ('k, 'k list) world \<Rightarrow> ('k, 'k list) world" where
  "record_key k w = w\<lparr>user := user w @ [k]\<rparr>"

definition world0 :: "(int, int list) world" where
  "world0 = \<lparr>stdout = [], user = []\<rparr>"

text \<open>
  The list behind a stack: \<open>stack_nodes s as\<close> says that \<open>as\<close> are the nodes of
  \<open>s\<close> from \<open>head\<close> to \<open>tail\<close>, each linked to its neighbours in both directions.
\<close>

definition stack_nodes :: "'k dlls \<Rightarrow> addr list \<Rightarrow> bool" where
  "stack_nodes s as =
     (distinct as \<and>
      head s = (if as = [] then None else Some (hd as)) \<and>
      tail s = (if as = [] then None else Some (last as)) \<and>
      (\<forall>i < length as.
         as ! i < length (dlls.heap s) \<and>
         next (dlls.heap s ! (as ! i)) = (if Suc i < length as then Some (as ! Suc i) else None) \<and>
         prev (dlls.heap s ! (as ! i)) = (if i = 0 then None else Some (as ! (i - 1)))))"

text \<open>
  The linkage invariant of the data model: \<open>head\<close> is unset iff \<open>tail\<close> is, the head
  has no predecessor, the tail no successor, and for any two nodes \<open>a\<close> and \<open>b\<close> of the
  stack, whether reached forwards from \<open>head\<close> or backwards from \<open>tail\<close>, \<open>a.next\<close> is
  \<open>b\<close> iff \<open>b.prev\<close> is \<open>a\<close>.
\<close>

definition linkage_inv :: "'k dlls \<Rightarrow> bool" where
  "linkage_inv s =
     ((head s = None \<longleftrightarrow> tail s = None) \<and>
      (\<forall>h. head s = Some h \<longrightarrow> prev (dlls.heap s ! h) = None) \<and>
      (\<forall>t. tail s = Some t \<longrightarrow> next (dlls.heap s ! t) = None) \<and>
      (\<forall>a b. list_node s a \<and> list_node s b \<longrightarrow>
         (next (dlls.heap s ! a) = Some b \<longleftrightarrow> prev (dlls.heap s ! b) = Some a)))"

text \<open>
  A store that no sequence of \<open>push\<close> and \<open>pop\<close> produces: two nodes, the second
  pointing back to the first, the first not pointing forward to the second.
\<close>

definition half_linked :: "int dlls" where
  "half_linked = \<lparr>dlls.cmp_fn = int_cmp, head = Some 0, tail = Some 1, dlls.heap =
     [\<lparr>dlls_node.key = 1, next = None, prev = None\<rparr>,
      \<lparr>dlls_node.key = 2, next = None, prev = Some 0\<rparr>]\<rparr>"

text \<open>A node matches when \<open>cmp_fn\<close> reports its key EQUAL to the target.\<close>

definition matches :: "'k dlls \<Rightarrow> 'k \<Rightarrow> addr \<Rightarrow> bool" where
  "matches s target_key a = (dlls.cmp_fn s (dlls_node.key (dlls.heap s ! a)) target_key = EQUAL)"

text \<open>
  The order that successor and predecessor are about: \<open>after xs n\<close> is the element that
  follows \<open>n\<close> in the list \<open>xs\<close>, if there is one. Applied to the inorder sequence of a
  tree it is the next node, applied to the reversed sequence the one before.
\<close>

fun first :: "'a list \<Rightarrow> 'a option" where
  "first [] = None"
| "first (x # xs) = Some x"

fun after :: "'a list \<Rightarrow> 'a \<Rightarrow> 'a option" where
  "after [] n = None"
| "after (x # xs) n = (if x = n then first xs else after xs n)"

text \<open>
  Insertion as the specification words it, on the shape of the tree: walk from the root,
  at each step move left if \<open>cmp_fn\<close> reports the new key LESS than the current node's
  key and right otherwise, until an empty slot is found, and put the new node there.
\<close>

fun spec_insert :: "('k \<Rightarrow> 'k \<Rightarrow> int) \<Rightarrow> (addr \<Rightarrow> 'k) \<Rightarrow> 'k \<Rightarrow> addr \<Rightarrow> addr tree \<Rightarrow> addr tree" where
  "spec_insert cmp keyof new_key new_node Leaf = Node Leaf new_node Leaf"
| "spec_insert cmp keyof new_key new_node (Node l a r) =
     (if cmp new_key (keyof a) = LESS then Node (spec_insert cmp keyof new_key new_node l) a r
      else Node l a (spec_insert cmp keyof new_key new_node r))"

text \<open>
  The node at which the walk for the key of \<open>new_node\<close> leaves the tree \<open>t\<close>: the parent
  of the empty slot, or \<open>prv\<close> when \<open>t\<close> is empty.
\<close>

fun descent :: "'k bst \<Rightarrow> addr \<Rightarrow> addr tree \<Rightarrow> addr option \<Rightarrow> addr option" where
  "descent s new_node Leaf prv = prv"
| "descent s new_node (Node l a r) prv =
     (if bst.cmp_fn s (key_at s new_node) (key_at s a) = LESS then descent s new_node l (Some a)
      else descent s new_node r (Some a))"

text \<open>
  The state after a new node with key \<open>k\<close> was constructed and linked below the node
  where its walk through \<open>t\<close> ends.
\<close>

definition inserted :: "'k \<Rightarrow> 'k bst \<Rightarrow> addr tree \<Rightarrow> 'k bst" where
  "inserted k s t =
     insert_link (snd (BST_Node k s)) (length (bst.heap s))
       (descent (snd (BST_Node k s)) (length (bst.heap s)) t None)"

section \<open>Evaluation of the concrete scenarios\<close>

lemmas bst_eval =
  insert_node_def BST_Node_def BST_init_def iterative_insert_def insert_loop.simps
  recursive_insert.simps insert_link_def set_parent_def set_left_child_def set_right_child_def
  key_at_def int_cmp_def LESS_def EQUAL_def GREATER_def

lemma tree_5_8_iterative: "insert_all (PyStr ''i'') [5, 8] (BST_init int_cmp) = Some (Inr tree_5_8)"
  by (simp add: bst_eval tree_5_8_def)

lemma tree_5_8_recursive: "insert_all (PyStr ''r'') [5, 8] (BST_init int_cmp) = Some (Inr tree_5_8)"
  by (simp add: bst_eval tree_5_8_def)

lemma tree_2_1_3_iterative:
  "insert_all (PyStr ''i'') [2, 1, 3] (BST_init int_cmp) = Some (Inr tree_2_1_3)"
  by (simp add: bst_eval tree_2_1_3_def)

lemma stack123_eq:
  "stack123 = \<lparr>dlls.cmp_fn = int_cmp, head = Some 0, tail = Some 2, dlls.heap =
     [\<lparr>dlls_node.key = 1, next = Some 1, prev = None\<rparr>,
      \<lparr>dlls_node.key = 2, next = Some 2, prev = Some 0\<rparr>,
      \<lparr>dlls_node.key = 3, next = None, prev = Some 1\<rparr>]\<rparr>"
  by (simp add: stack123_def push_def DLLS_init_def Let_def)

lemma reachable_stack123: "reachable stack123"
  unfolding stack123_def by (intro r_push r_init)

section \<open>Searching the tree in both modes\<close>

text \<open>
  C1. Iterative and recursive search return the same result for every tree and key. This
  fails on the tree built by inserting 5 and then 8: the node that holds 8 is the right
  child of the root (reference 1). Searching for 8 iteratively returns that node;
  searching recursively returns \<open>None\<close>, because the branch that should go right compares
  the node's key with itself, never gets GREATER, and goes left.
\<close>

theorem BST_search_modes_differ:
  "insert_all (PyStr ''i'') [5, 8] (BST_init int_cmp) = Some (Inr tree_5_8) \<and>
   key_at tree_5_8 1 = 8 \<and>
   BST_search tree_5_8 8 (PyStr ''i'') = Some (Inr (Some 1)) \<and>
   BST_search tree_5_8 8 (PyStr ''r'') = Some (Inr None)"
proof -
  have "BST_search tree_5_8 8 (PyStr ''i'') = Some (Inr (Some 1))"
    by (simp add: BST_search_def BST_iterative_search_def BST_iterative_loop.simps
        tree_5_8_def key_at_def int_cmp_def LESS_def GREATER_def)
  moreover have "BST_search tree_5_8 8 (PyStr ''r'') = Some (Inr None)"
    by (simp add: BST_search_def BST_recursive_search.simps
        tree_5_8_def key_at_def int_cmp_def EQUAL_def GREATER_def)
  moreover have "key_at tree_5_8 1 = 8"
    by (simp add: tree_5_8_def key_at_def)
  ultimately show ?thesis
    using tree_5_8_iterative by simp
qed

section \<open>The traversals and the caller's callback\<close>

text \<open>
  C2. Each walk calls the supplied callback once per visited node, in the walk's order,
  also at the nodes reached through the recursive calls. This fails on the tree built
  from 2, 1, 3 with a callback that records the keys it is given: in each of the three
  walks the callback receives the key of the starting node only, and the keys 1 and 3 of
  the children go to \<open>print\<close>.
\<close>

theorem walks_drop_the_callback:
  "insert_all (PyStr ''i'') [2, 1, 3] (BST_init int_cmp) = Some (Inr tree_2_1_3) \<and>
   inorder_walk tree_2_1_3 (root tree_2_1_3) record_key world0
     = Some \<lparr>stdout = [1, 3], user = [2]\<rparr> \<and>
   preorder_walk tree_2_1_3 (root tree_2_1_3) record_key world0
     = Some \<lparr>stdout = [1, 3], user = [2]\<rparr> \<and>
   postorder_walk tree_2_1_3 (root tree_2_1_3) record_key world0
     = Some \<lparr>stdout = [1, 3], user = [2]\<rparr>"
proof -
  have "inorder_walk tree_2_1_3 (root tree_2_1_3) record_key world0
      = Some \<lparr>stdout = [1, 3], user = [2]\<rparr>"
    by (simp add: inorder_walk.simps tree_2_1_3_def key_at_def print_def record_key_def world0_def)
  moreover have "preorder_walk tree_2_1_3 (root tree_2_1_3) record_key world0
      = Some \<lparr>stdout = [1, 3], user = [2]\<rparr>"
    by (simp add: preorder_walk.simps tree_2_1_3_def key_at_def print_def record_key_def world0_def)
  moreover have "postorder_walk tree_2_1_3 (root tree_2_1_3) record_key world0
      = Some \<lparr>stdout = [1, 3], user = [2]\<rparr>"
    by (simp add: postorder_walk.simps tree_2_1_3_def key_at_def print_def record_key_def world0_def)
  ultimately show ?thesis
    using tree_2_1_3_iterative by simp
qed

section \<open>What pop returns\<close>

text \<open>
  C3, as stated: after pushing 1, 2, 3 the first \<open>pop\<close> returns 3. It does not: \<open>pop\<close>
  returns the new tail, which is the node that holds 2.
\<close>

theorem pop_first_not_3: "returned_key (pop stack123) \<noteq> Some 3"
  by (simp add: stack123_eq pop_def is_empty_def returned_key_def Let_def)

text \<open>
  C3, amended: after pushing 1, 2, 3 the first \<open>pop\<close> returns the node that holds 2 (the
  new tail), the second the node that holds 1, the third, which removes the last node and
  leaves the stack empty, returns \<open>None\<close>, and the fourth, on the empty stack, returns
  \<open>None\<close> and changes nothing.
\<close>

theorem pop_returns_new_tail:
  "returned_key (pop stack123) = Some 2 \<and>
   returned_key (pop (snd (pop stack123))) = Some 1 \<and>
   fst (pop (snd (pop (snd (pop stack123))))) = Inr None \<and>
   is_empty (snd (pop (snd (pop (snd (pop stack123)))))) \<and>
   pop (snd (pop (snd (pop (snd (pop stack123))))))
     = (Inr None, snd (pop (snd (pop (snd (pop stack123))))))"
  by (simp add: stack123_eq pop_def is_empty_def returned_key_def Let_def)

text \<open>
  C10. The result of \<open>pop\<close> is \<open>None\<close> both on an empty stack \<open>s1\<close>, which stays as it
  is, and on a stack \<open>s2\<close> whose tail node has no predecessor, that is, whose only node is
  removed by the call and which is empty afterwards. The result alone does not tell the
  two apart.
\<close>

theorem pop_None_twice:
  assumes "is_empty s1" and "tail s2 = Some t" and "prev (dlls.heap s2 ! t) = None"
  shows "fst (pop s1) = Inr None \<and> fst (pop s2) = Inr None \<and> snd (pop s1) = s1 \<and>
         is_empty (snd (pop s2)) \<and> \<not> is_empty s2"
  using assms by (simp add: pop_def is_empty_def Let_def)

theorem pop_None_twice_witness:
  "is_empty (DLLS_init int_cmp) \<and>
   tail (snd (push 7 (DLLS_init int_cmp))) = Some 0 \<and>
   prev (dlls.heap (snd (push 7 (DLLS_init int_cmp))) ! 0) = None \<and>
   fst (pop (DLLS_init int_cmp)) = Inr None \<and>
   fst (pop (snd (push 7 (DLLS_init int_cmp)))) = Inr None \<and>
   snd (pop (DLLS_init int_cmp)) = DLLS_init int_cmp \<and>
   is_empty (snd (pop (snd (push 7 (DLLS_init int_cmp))))) \<and>
   \<not> is_empty (snd (push 7 (DLLS_init int_cmp)))"
proof -
  have a: "is_empty (DLLS_init int_cmp)"
    by (simp add: is_empty_def DLLS_init_def)
  have b: "tail (snd (push 7 (DLLS_init int_cmp))) = Some 0"
    by (simp add: push_def DLLS_init_def Let_def)
  have c: "prev (dlls.heap (snd (push 7 (DLLS_init int_cmp))) ! 0) = None"
    by (simp add: push_def DLLS_init_def Let_def)
  from pop_None_twice [OF a b c] a b c show ?thesis by simp
qed

section \<open>An invalid mode\<close>

lemma tree_at_append: "tree_at h p par t \<Longrightarrow> tree_at (h @ xs) p par t"
  by (induction t arbitrary: p par) (auto simp: nth_append)

text \<open>
  C8. With a mode string \<open>m\<close> other than 'i' and 'r', \<open>insert_node\<close> and both \<open>search\<close>
  methods raise ValueError; with a mode \<open>other\<close> that is not a string they raise
  TypeError, a different error. After the failed \<open>insert_node\<close> the tree is as before:
  the state differs from the old one by the node object that was constructed before
  \<open>mode\<close> was examined, which nothing refers to; \<open>root\<close> and every node that existed
  are unchanged. The \<open>search\<close> methods write nothing at all.
\<close>

theorem invalid_mode_fails_unchanged:
  assumes "m \<noteq> ''i''" and "m \<noteq> ''r''" and "\<not> is_str other"
  shows "insert_node k (PyStr m) s = Some (Inl ValueError, snd (BST_Node k s)) \<and>
         insert_node k other s = Some (Inl TypeError, snd (BST_Node k s)) \<and>
         ValueError \<noteq> TypeError \<and>
         root (snd (BST_Node k s)) = root s \<and>
         bst.cmp_fn (snd (BST_Node k s)) = bst.cmp_fn s \<and>
         take (length (bst.heap s)) (bst.heap (snd (BST_Node k s))) = bst.heap s \<and>
         (wf_bst s t \<longrightarrow> wf_bst (snd (BST_Node k s)) t) \<and>
         BST_search s tk (PyStr m) = Some (Inl ValueError) \<and>
         BST_search s tk other = Some (Inl TypeError) \<and>
         DLLS_search d tk (PyStr m) = Some (Inl ValueError) \<and>
         DLLS_search d tk other = Some (Inl TypeError)"
proof -
  have "wf_bst s t \<Longrightarrow> wf_bst (snd (BST_Node k s)) t"
    by (simp add: wf_bst_def BST_Node_def tree_at_append)
  then show ?thesis
    using assms
    by (auto simp: insert_node_def BST_Node_def BST_search_def DLLS_search_def is_str_def
        split: pyobj.splits)
qed

theorem invalid_mode_fails_unchanged_witness:
  "''x'' \<noteq> ''i'' \<and> ''x'' \<noteq> ''r'' \<and> \<not> is_str PyNone \<and>
   wf_bst tree_5_8 (Node Leaf 0 (Node Leaf 1 Leaf)) \<and>
   insert_node 4 (PyStr ''x'') tree_5_8 = Some (Inl ValueError, snd (BST_Node 4 tree_5_8)) \<and>
   insert_node 4 PyNone tree_5_8 = Some (Inl TypeError, snd (BST_Node 4 tree_5_8)) \<and>
   root (snd (BST_Node 4 tree_5_8)) = root tree_5_8 \<and>
   take (length (bst.heap tree_5_8)) (bst.heap (snd (BST_Node 4 tree_5_8))) = bst.heap tree_5_8 \<and>
   wf_bst (snd (BST_Node 4 tree_5_8)) (Node Leaf 0 (Node Leaf 1 Leaf)) \<and>
   BST_search tree_5_8 8 (PyStr ''x'') = Some (Inl ValueError) \<and>
   BST_search tree_5_8 8 PyNone = Some (Inl TypeError) \<and>
   DLLS_search stack123 8 (PyStr ''x'') = Some (Inl ValueError) \<and>
   DLLS_search stack123 8 PyNone = Some (Inl TypeError)"
proof -
  have a: "''x'' \<noteq> ''i''" and b: "''x'' \<noteq> ''r''" and c: "\<not> is_str PyNone"
    by (simp_all add: is_str_def)
  have d: "wf_bst tree_5_8 (Node Leaf 0 (Node Leaf 1 Leaf))"
    by (simp add: wf_bst_def tree_5_8_def)
  from invalid_mode_fails_unchanged [OF a b c, where k = 4 and s = tree_5_8
      and t = "Node Leaf 0 (Node Leaf 1 Leaf)" and tk = 8 and d = stack123] d
  show ?thesis
    using a b c by simp
qed

section \<open>The linkage invariant of the stack\<close>

lemma stack_nodes_init: "stack_nodes (DLLS_init f) []"
  by (simp add: stack_nodes_def DLLS_init_def)

lemma stack_nodes_push:
  assumes "stack_nodes s as"
  shows "stack_nodes (snd (push k s)) (as @ [length (dlls.heap s)])"
proof (cases "as = []")
  case True
  with assms show ?thesis
    by (simp add: stack_nodes_def push_def Let_def)
next
  case False
  let ?n = "length (dlls.heap s)"
  let ?t = "last as"
  let ?h1 = "dlls.heap s @ [\<lparr>dlls_node.key = k, next = None, prev = tail s\<rparr>]"
  let ?h' = "?h1[?t := (?h1 ! ?t)\<lparr>next := Some ?n\<rparr>]"
  from assms False have tl: "tail s = Some ?t" and hd: "head s = Some (hd as)" and dist: "distinct as"
    by (simp_all add: stack_nodes_def)
  from assms have ok: "\<And>i. i < length as \<Longrightarrow> as ! i < ?n \<and>
         next (dlls.heap s ! (as ! i)) = (if Suc i < length as then Some (as ! Suc i) else None) \<and>
         prev (dlls.heap s ! (as ! i)) = (if i = 0 then None else Some (as ! (i - 1)))"
    by (simp add: stack_nodes_def)
  have lt: "a < ?n" if "a \<in> set as" for a
    using that ok by (auto simp: in_set_conv_nth)
  have tlast: "?t = as ! (length as - 1)"
    using False by (simp add: last_conv_nth)
  have s': "snd (push k s) = s\<lparr>tail := Some ?n, dlls.heap := ?h'\<rparr>"
    using tl by (simp add: push_def Let_def)
  have fresh: "?n \<notin> set as"
    using lt by blast
  have "distinct (as @ [?n])"
    using dist fresh by simp
  moreover have "head (snd (push k s)) = Some (hd (as @ [?n]))"
    using s' hd False by simp
  moreover have "tail (snd (push k s)) = Some (last (as @ [?n]))"
    using s' by simp
  moreover have "(as @ [?n]) ! i < length ?h' \<and>
         next (?h' ! ((as @ [?n]) ! i)) = (if Suc i < length (as @ [?n]) then Some ((as @ [?n]) ! Suc i) else None) \<and>
         prev (?h' ! ((as @ [?n]) ! i)) = (if i = 0 then None else Some ((as @ [?n]) ! (i - 1)))"
    if i: "i < length (as @ [?n])" for i
  proof (cases "i < length as")
    case True
    note o = ok [OF True]
    from o have a: "as ! i < ?n" by simp
    show ?thesis
    proof (cases "Suc i < length as")
      case True
      then have "as ! i \<noteq> ?t"
        using dist tlast \<open>i < length as\<close> by (simp add: nth_eq_iff_index_eq)
      moreover have "i - 1 < length as"
        using \<open>i < length as\<close> by simp
      ultimately show ?thesis
        using o a True \<open>i < length as\<close> by (simp add: nth_append)
    next
      case F: False
      with True have "i = length as - 1" by simp
      then have "as ! i = ?t" using tlast by simp
      moreover have "i - 1 < length as"
        using \<open>i < length as\<close> by simp
      ultimately show ?thesis
        using o a F True by (simp add: nth_append)
    qed
  next
    case F: False
    with i have ieq: "i = length as" by simp
    have "?t < ?n" using lt False by simp
    then have "?t \<noteq> ?n" by simp
    with ieq tl False tlast show ?thesis
      by (simp add: nth_append)
  qed
  ultimately show ?thesis
    using s' by (simp add: stack_nodes_def)
qed

lemma stack_nodes_pop:
  assumes "stack_nodes s as"
  shows "stack_nodes (snd (pop s)) (butlast as)"
proof (cases "as = []")
  case True
  with assms show ?thesis
    by (simp add: stack_nodes_def pop_def is_empty_def)
next
  case False
  let ?n = "length as"
  let ?t = "last as"
  from assms False have tl: "tail s = Some ?t" and hd: "head s = Some (hd as)" and dist: "distinct as"
    by (simp_all add: stack_nodes_def)
  from assms have ok: "\<And>i. i < length as \<Longrightarrow> as ! i < length (dlls.heap s) \<and>
         next (dlls.heap s ! (as ! i)) = (if Suc i < length as then Some (as ! Suc i) else None) \<and>
         prev (dlls.heap s ! (as ! i)) = (if i = 0 then None else Some (as ! (i - 1)))"
    by (simp add: stack_nodes_def)
  have tlast: "?t = as ! (?n - 1)"
    using False by (simp add: last_conv_nth)
  have n0: "0 < ?n" using False by simp
  have pt: "prev (dlls.heap s ! ?t) = (if ?n - 1 = 0 then None else Some (as ! (?n - 2)))"
    using ok [of "?n - 1"] n0 tlast by (simp add: numeral_2_eq_2)
  show ?thesis
  proof (cases "?n = 1")
    case True
    then have "butlast as = []"
      by (cases as) auto
    moreover have "snd (pop s) = s\<lparr>tail := None, head := None\<rparr>"
      using tl pt True by (simp add: pop_def is_empty_def Let_def)
    ultimately show ?thesis
      by (simp add: stack_nodes_def)
  next
    case F: False
    with n0 have n2: "2 \<le> ?n" by arith
    let ?p = "as ! (?n - 2)"
    let ?h' = "(dlls.heap s)[?p := (dlls.heap s ! ?p)\<lparr>next := None\<rparr>]"
    have s': "snd (pop s) = s\<lparr>tail := Some ?p, dlls.heap := ?h'\<rparr>"
      using tl pt F n2 by (simp add: pop_def is_empty_def Let_def)
    have bl: "butlast as \<noteq> []"
      using n2 by (cases as) auto
    have lb: "length (butlast as) = ?n - 1" by simp
    have "distinct (butlast as)"
      using dist by (rule distinct_butlast)
    moreover have "head (snd (pop s)) = Some (hd (butlast as))"
      using s' hd bl by (cases as) auto
    moreover have "tail (snd (pop s)) = Some (last (butlast as))"
      using s' bl n2 by (simp add: last_conv_nth nth_butlast numeral_2_eq_2)
    moreover have "butlast as ! i < length ?h' \<and>
         next (?h' ! (butlast as ! i)) = (if Suc i < length (butlast as) then Some (butlast as ! Suc i) else None) \<and>
         prev (?h' ! (butlast as ! i)) = (if i = 0 then None else Some (butlast as ! (i - 1)))"
      if i: "i < length (butlast as)" for i
    proof -
      from i have i': "i < ?n" and i1: "i < ?n - 1" by simp_all
      note o = ok [OF i']
      have bi: "butlast as ! i = as ! i" using i by (simp add: nth_butlast)
      have bp: "i \<noteq> 0 \<Longrightarrow> butlast as ! (i - 1) = as ! (i - 1)" using i by (simp add: nth_butlast)
      show ?thesis
      proof (cases "Suc i < ?n - 1")
        case True
        then have "as ! i \<noteq> ?p"
          using dist i' n2 by (simp add: nth_eq_iff_index_eq)
        moreover have "butlast as ! Suc i = as ! Suc i"
          using True by (simp add: nth_butlast)
        moreover have "Suc i < length as"
          using True by simp
        ultimately show ?thesis
          using o True bi bp i1 by simp
      next
        case False
        with i1 have "i = ?n - 2" by simp
        with o False bi bp i1 show ?thesis
          by simp
      qed
    qed
    ultimately show ?thesis
      using s' bl by (simp add: stack_nodes_def)
  qed
qed

lemma reachable_stack_nodes: "reachable s \<Longrightarrow> \<exists>as. stack_nodes s as"
proof (induction rule: reachable.induct)
  case (r_init f)
  show ?case using stack_nodes_init by blast
next
  case (r_push s k)
  then obtain as where "stack_nodes s as" by blast
  then have "stack_nodes (snd (push k s)) (as @ [length (dlls.heap s)])"
    by (rule stack_nodes_push)
  then show ?case by blast
next
  case (r_pop s)
  then obtain as where "stack_nodes s as" by blast
  then have "stack_nodes (snd (pop s)) (butlast as)"
    by (rule stack_nodes_pop)
  then show ?case by blast
qed

lemma in_list_stack_nodes:
  assumes "stack_nodes s as" and "in_list s a"
  shows "a \<in> set as"
  using assms(2,1)
proof (induction rule: in_list.induct)
  case (il_head s a)
  then show ?case
    by (cases as) (auto simp: stack_nodes_def split: if_splits)
next
  case (il_next s a b)
  then have "a \<in> set as" by simp
  then obtain i where i: "i < length as" "as ! i = a"
    by (auto simp: in_set_conv_nth)
  from il_next.prems i(1)
  have "next (dlls.heap s ! (as ! i)) = (if Suc i < length as then Some (as ! Suc i) else None)"
    by (simp add: stack_nodes_def)
  with il_next.hyps(2) i(2) have "Suc i < length as \<and> as ! Suc i = b"
    by (auto split: if_splits)
  then show ?case
    by (metis nth_mem)
qed

lemma in_list_back_stack_nodes:
  assumes "stack_nodes s as" and "in_list_back s a"
  shows "a \<in> set as"
  using assms(2,1)
proof (induction rule: in_list_back.induct)
  case (ib_tail s a)
  then show ?case
    by (cases "as = []") (auto simp: stack_nodes_def)
next
  case (ib_prev s b a)
  then have "b \<in> set as" by simp
  then obtain j where j: "j < length as" "as ! j = b"
    by (auto simp: in_set_conv_nth)
  from ib_prev.prems j(1)
  have "prev (dlls.heap s ! (as ! j)) = (if j = 0 then None else Some (as ! (j - 1)))"
    by (simp add: stack_nodes_def)
  with ib_prev.hyps(2) j(2) have "j \<noteq> 0 \<and> as ! (j - 1) = a"
    by (auto split: if_splits)
  moreover from j(1) have "j - 1 < length as" by simp
  ultimately show ?case
    by (metis nth_mem)
qed

lemma stack_nodes_in_list:
  assumes sn: "stack_nodes s as"
  shows "i < length as \<Longrightarrow> in_list s (as ! i)"
proof (induction i)
  case 0
  then have "head s = Some (as ! 0)"
    using sn by (cases as) (simp_all add: stack_nodes_def)
  then show ?case by (rule il_head)
next
  case (Suc i)
  then have "in_list s (as ! i)" by simp
  moreover have "next (dlls.heap s ! (as ! i)) = Some (as ! Suc i)"
    using sn Suc.prems by (simp add: stack_nodes_def)
  ultimately show ?case by (rule il_next)
qed

lemma stack_nodes_in_list_back:
  assumes sn: "stack_nodes s as"
  shows "k < length as \<Longrightarrow> in_list_back s (as ! (length as - Suc k))"
proof (induction k)
  case 0
  then have "as \<noteq> []" by auto
  then have "tail s = Some (as ! (length as - Suc 0))"
    using sn by (simp add: stack_nodes_def last_conv_nth)
  then show ?case by (rule ib_tail)
next
  case (Suc k)
  let ?j = "length as - Suc k"
  from Suc have bk: "in_list_back s (as ! ?j)" by simp
  from Suc.prems have j: "?j < length as" "?j \<noteq> 0" "?j - 1 = length as - Suc (Suc k)"
    by arith+
  have "prev (dlls.heap s ! (as ! ?j)) = (if ?j = 0 then None else Some (as ! (?j - 1)))"
    using sn j(1) by (simp add: stack_nodes_def)
  with j have "prev (dlls.heap s ! (as ! ?j)) = Some (as ! (length as - Suc (Suc k)))"
    by simp
  with bk show ?case by (rule ib_prev)
qed

lemma stack_nodes_both_ends:
  assumes sn: "stack_nodes s as"
  shows "in_list s a \<longleftrightarrow> a \<in> set as" and "in_list_back s a \<longleftrightarrow> a \<in> set as"
proof -
  have "in_list s a" if "a \<in> set as"
  proof -
    from that obtain i where "i < length as" "as ! i = a"
      by (auto simp: in_set_conv_nth)
    then show ?thesis
      using stack_nodes_in_list [OF sn, of i] by simp
  qed
  then show "in_list s a \<longleftrightarrow> a \<in> set as"
    using in_list_stack_nodes [OF sn] by auto
  have "in_list_back s a" if "a \<in> set as"
  proof -
    from that obtain i where i: "i < length as" "as ! i = a"
      by (auto simp: in_set_conv_nth)
    then have "length as - Suc i < length as" "length as - Suc (length as - Suc i) = i"
      by arith+
    then show ?thesis
      using stack_nodes_in_list_back [OF sn, of "length as - Suc i"] i(2) by simp
  qed
  then show "in_list_back s a \<longleftrightarrow> a \<in> set as"
    using in_list_back_stack_nodes [OF sn] by auto
qed

lemma stack_nodes_linkage:
  assumes sn: "stack_nodes s as"
  shows "linkage_inv s"
proof -
  from sn have dist: "distinct as"
    by (simp add: stack_nodes_def)
  from sn have ok: "\<And>i. i < length as \<Longrightarrow>
         next (dlls.heap s ! (as ! i)) = (if Suc i < length as then Some (as ! Suc i) else None) \<and>
         prev (dlls.heap s ! (as ! i)) = (if i = 0 then None else Some (as ! (i - 1)))"
    by (simp add: stack_nodes_def)
  have "head s = None \<longleftrightarrow> tail s = None"
    using sn by (simp add: stack_nodes_def)
  moreover have "prev (dlls.heap s ! h) = None" if "head s = Some h" for h
  proof -
    from that sn have "as \<noteq> []" "h = as ! 0"
      by (auto simp: stack_nodes_def hd_conv_nth split: if_splits)
    then show ?thesis using ok [of 0] by simp
  qed
  moreover have "next (dlls.heap s ! t) = None" if "tail s = Some t" for t
  proof -
    from that sn have "as \<noteq> []" "t = as ! (length as - 1)"
      by (auto simp: stack_nodes_def last_conv_nth split: if_splits)
    then show ?thesis using ok [of "length as - 1"] by simp
  qed
  moreover have "next (dlls.heap s ! a) = Some b \<longleftrightarrow> prev (dlls.heap s ! b) = Some a"
    if "list_node s a" "list_node s b" for a b
  proof -
    from that have "a \<in> set as" "b \<in> set as"
      by (simp_all add: list_node_def stack_nodes_both_ends [OF sn])
    then obtain i j where i: "i < length as" "as ! i = a" and j: "j < length as" "as ! j = b"
      by (auto simp: in_set_conv_nth)
    have "next (dlls.heap s ! a) = Some b \<longleftrightarrow> j = Suc i"
      using ok [OF i(1)] i j dist by (auto simp: nth_eq_iff_index_eq)
    moreover have "prev (dlls.heap s ! b) = Some a \<longleftrightarrow> j = Suc i"
      using ok [OF j(1)] i j dist by (cases j) (auto simp: nth_eq_iff_index_eq)
    ultimately show ?thesis by simp
  qed
  ultimately show ?thesis
    by (simp add: linkage_inv_def)
qed

text \<open>
  C9. Every stack that \<open>push\<close> and \<open>pop\<close> can build from an empty one satisfies the
  linkage invariant: \<open>head\<close> is unset iff \<open>tail\<close> is, the head has no predecessor, the
  tail no successor, and for any two nodes \<open>a\<close> and \<open>b\<close> of the stack \<open>a.next\<close> is \<open>b\<close> iff
  \<open>b.prev\<close> is \<open>a\<close>. The nodes of the stack are those reached from \<open>head\<close> through
  \<open>next\<close> together with those reached from \<open>tail\<close> through \<open>prev\<close>; in such a stack the
  two ends reach the same nodes, so \<open>tail\<close> is reached from \<open>head\<close> and \<open>head\<close> from
  \<open>tail\<close>.
\<close>

theorem reachable_linkage:
  assumes "reachable s"
  shows "linkage_inv s \<and> (\<forall>a. in_list s a \<longleftrightarrow> in_list_back s a)"
proof -
  from assms obtain as where sn: "stack_nodes s as"
    using reachable_stack_nodes by blast
  then have "linkage_inv s"
    by (rule stack_nodes_linkage)
  moreover have "\<forall>a. in_list s a \<longleftrightarrow> in_list_back s a"
    by (simp add: stack_nodes_both_ends [OF sn])
  ultimately show ?thesis by simp
qed

theorem reachable_linkage_witness:
  "reachable stack123 \<and> linkage_inv stack123 \<and> (\<forall>a. in_list stack123 a \<longleftrightarrow> in_list_back stack123 a)"
  using reachable_linkage [OF reachable_stack123] reachable_stack123 by simp

text \<open>The invariant does tell a half-linked pair of nodes from a stack.\<close>

lemma half_linked_violates: "\<not> linkage_inv half_linked"
proof
  assume inv: "linkage_inv half_linked"
  have "in_list half_linked 0"
    by (rule il_head) (simp add: half_linked_def)
  then have a: "list_node half_linked 0"
    by (simp add: list_node_def)
  have "in_list_back half_linked 1"
    by (rule ib_tail) (simp add: half_linked_def)
  then have b: "list_node half_linked 1"
    by (simp add: list_node_def)
  from inv a b
  have "next (dlls.heap half_linked ! 0) = Some 1 \<longleftrightarrow> prev (dlls.heap half_linked ! 1) = Some 0"
    unfolding linkage_inv_def by blast
  then show False
    by (simp add: half_linked_def)
qed

section \<open>Searching the stack in both modes\<close>

lemma stack_nodes_ref:
  assumes "stack_nodes s as" and "i < length as"
  shows "next (dlls.heap s ! (as ! i)) = (if Suc i < length as then Some (as ! Suc i) else None)"
  using assms by (simp add: stack_nodes_def)

lemma iterative_loop_find:
  assumes sn: "stack_nodes s as"
  shows "i \<le> length as \<Longrightarrow>
    DLLS_iterative_loop s t (if i < length as then Some (as ! i) else None)
      = Some (find (matches s t) (drop i as))"
proof (induction "length as - i" arbitrary: i)
  case 0
  then have "\<not> i < length as" by simp
  then show ?case
    by (simp add: DLLS_iterative_loop.simps [of s t None])
next
  case (Suc n)
  from Suc.hyps(2) have i: "i < length as" by arith
  then have dr: "drop i as = as ! i # drop (Suc i) as"
    by (simp add: Cons_nth_drop_Suc)
  show ?case
  proof (cases "matches s t (as ! i)")
    case True
    with i dr show ?thesis
      by (subst DLLS_iterative_loop.simps) (simp add: matches_def)
  next
    case False
    have "n = length as - Suc i" and "Suc i \<le> length as"
      using Suc.hyps(2) by arith+
    then have "DLLS_iterative_loop s t (if Suc i < length as then Some (as ! Suc i) else None)
      = Some (find (matches s t) (drop (Suc i) as))"
      by (rule Suc.hyps(1))
    with False i dr stack_nodes_ref [OF sn i] show ?thesis
      by (subst DLLS_iterative_loop.simps) (simp add: matches_def)
  qed
qed

lemma recursive_search_find:
  assumes sn: "stack_nodes s as"
  shows "i \<le> length as \<Longrightarrow>
    DLLS_recursive_search s t (if i < length as then Some (as ! i) else None)
      = Some (find (matches s t) (drop i as))"
proof (induction "length as - i" arbitrary: i)
  case 0
  then have "\<not> i < length as" by simp
  then show ?case
    by (simp add: DLLS_recursive_search.simps [of s t None])
next
  case (Suc n)
  from Suc.hyps(2) have i: "i < length as" by arith
  then have dr: "drop i as = as ! i # drop (Suc i) as"
    by (simp add: Cons_nth_drop_Suc)
  show ?case
  proof (cases "matches s t (as ! i)")
    case True
    with i dr show ?thesis
      by (subst DLLS_recursive_search.simps) (simp add: matches_def)
  next
    case False
    have "n = length as - Suc i" and "Suc i \<le> length as"
      using Suc.hyps(2) by arith+
    then have "DLLS_recursive_search s t (if Suc i < length as then Some (as ! Suc i) else None)
      = Some (find (matches s t) (drop (Suc i) as))"
      by (rule Suc.hyps(1))
    with False i dr stack_nodes_ref [OF sn i] show ?thesis
      by (subst DLLS_recursive_search.simps) (simp add: matches_def)
  qed
qed

lemma stack_nodes_head:
  "stack_nodes s as \<Longrightarrow> head s = (if 0 < length as then Some (as ! 0) else None)"
  by (cases as) (simp_all add: stack_nodes_def)

lemma stack_nodes_search:
  assumes sn: "stack_nodes s as"
  shows "DLLS_search s t (PyStr ''i'') = Some (Inr (find (matches s t) as))"
    and "DLLS_search s t (PyStr ''r'') = Some (Inr (find (matches s t) as))"
  using iterative_loop_find [OF sn, of 0 t] recursive_search_find [OF sn, of 0 t]
    stack_nodes_head [OF sn]
  by (simp_all add: DLLS_search_def DLLS_iterative_search_def)

text \<open>
  C7. On every stack built by \<open>push\<close> and \<open>pop\<close>, \<open>search\<close> returns in both modes,
  and both return the first node, in the order from head to tail, whose key \<open>cmp_fn\<close>
  reports EQUAL to the target, or \<open>None\<close> when there is none.
\<close>

theorem DLLS_search_modes_agree:
  assumes "reachable s"
  shows "\<exists>as. stack_nodes s as \<and>
           DLLS_search s t (PyStr ''i'') = Some (Inr (find (matches s t) as)) \<and>
           DLLS_search s t (PyStr ''r'') = Some (Inr (find (matches s t) as))"
proof -
  from assms obtain as where sn: "stack_nodes s as"
    using reachable_stack_nodes by blast
  show ?thesis
    using sn stack_nodes_search [OF sn, of t] by (intro exI [of _ as]) simp
qed

theorem DLLS_search_modes_agree_witness:
  "reachable stack123 \<and>
   DLLS_search stack123 2 (PyStr ''i'') = DLLS_search stack123 2 (PyStr ''r'') \<and>
   DLLS_search stack123 2 (PyStr ''i'') = Some (Inr (Some 1))"
proof -
  have "DLLS_search stack123 2 (PyStr ''i'') = DLLS_search stack123 2 (PyStr ''r'')"
    using DLLS_search_modes_agree [OF reachable_stack123, of 2] by auto
  moreover have "DLLS_search stack123 2 (PyStr ''i'') = Some (Inr (Some 1))"
    by (simp add: DLLS_search_def DLLS_iterative_search_def DLLS_iterative_loop.simps
        stack123_eq int_cmp_def EQUAL_def)
  ultimately show ?thesis
    using reachable_stack123 by simp
qed

section \<open>Successor and predecessor\<close>

lemma first_append: "first (xs @ ys) = (case first xs of Some m \<Rightarrow> Some m | None \<Rightarrow> first ys)"
  by (cases xs) simp_all

lemma first_hd: "xs \<noteq> [] \<Longrightarrow> first xs = Some (hd xs)"
  by (cases xs) simp_all

lemma after_append_in:
  "n \<in> set xs \<Longrightarrow>
   after (xs @ ys) n = (case after xs n of Some m \<Rightarrow> Some m | None \<Rightarrow> first ys)"
  by (induction xs) (auto simp: first_append)

lemma after_append_notin: "n \<notin> set xs \<Longrightarrow> after (xs @ ys) n = after ys n"
  by (induction xs) auto

lemma first_in_set: "first xs = Some m \<Longrightarrow> m \<in> set xs"
  by (cases xs) simp_all

lemma after_in_set: "after xs n = Some m \<Longrightarrow> m \<in> set xs"
  by (induction xs) (auto split: if_splits dest: first_in_set)

lemma after_last: "distinct xs \<Longrightarrow> xs \<noteq> [] \<Longrightarrow> after xs (last xs) = None"
proof (induction xs)
  case Nil
  then show ?case by simp
next
  case (Cons x xs)
  show ?case
  proof (cases "xs = []")
    case True
    then show ?thesis by simp
  next
    case False
    with Cons.prems have "last xs \<noteq> x" by auto
    with False Cons show ?thesis by simp
  qed
qed

lemma after_rev:
  "distinct xs \<Longrightarrow> after xs n = Some m \<Longrightarrow> after (rev xs) m = Some n"
proof (induction xs)
  case Nil
  then show ?case by simp
next
  case (Cons x xs)
  show ?case
  proof (cases "x = n")
    case True
    with Cons.prems have "first xs = Some m" by simp
    then obtain ys where xs: "xs = m # ys"
      by (cases xs) simp_all
    then have m: "m = last (rev xs)" by simp
    have "distinct (rev xs)" "rev xs \<noteq> []"
      using Cons.prems xs by simp_all
    then have "after (rev xs) (last (rev xs)) = None"
      by (rule after_last)
    with m have "after (rev xs) m = None" by simp
    moreover have "m \<in> set (rev xs)" using xs by simp
    ultimately show ?thesis
      using True by (simp add: after_append_in)
  next
    case False
    with Cons.prems have a: "after xs n = Some m" by simp
    then have "after (rev xs) m = Some n"
      using Cons.IH Cons.prems by simp
    moreover from a have "m \<in> set (rev xs)"
      by (simp add: after_in_set)
    ultimately show ?thesis
      by (simp add: after_append_in)
  qed
qed

lemma tree_at_root:
  "tree_at h (Some a) par t \<Longrightarrow> \<exists>l r. t = Node l a r"
  by (cases t) auto

lemma tree_at_None: "tree_at h None par t \<Longrightarrow> t = Leaf"
  by (cases t) auto

lemma min_loop_tree:
  "tree_at (bst.heap s) (Some a) par t \<Longrightarrow> min_loop s a = Some (hd (inorder t))"
proof (induction t arbitrary: a par)
  case Leaf
  then show ?case by simp
next
  case (Node l x r)
  then have x: "x = a" and tl: "tree_at (bst.heap s) (left_child (bst.heap s ! a)) (Some a) l"
    by simp_all
  show ?case
  proof (cases "left_child (bst.heap s ! a)")
    case None
    with tl have "l = Leaf" by (simp add: tree_at_None)
    with None x show ?thesis
      by (subst min_loop.simps) simp
  next
    case (Some b)
    with tl have "min_loop s b = Some (hd (inorder l))"
      using Node.IH(1) by simp
    moreover from Some tl have "inorder l \<noteq> []"
      by (cases l) auto
    ultimately show ?thesis
      using Some by (subst min_loop.simps) simp
  qed
qed

lemma max_loop_tree:
  "tree_at (bst.heap s) (Some a) par t \<Longrightarrow> max_loop s a = Some (last (inorder t))"
proof (induction t arbitrary: a par)
  case Leaf
  then show ?case by simp
next
  case (Node l x r)
  then have x: "x = a" and tr: "tree_at (bst.heap s) (right_child (bst.heap s ! a)) (Some a) r"
    by simp_all
  show ?case
  proof (cases "right_child (bst.heap s ! a)")
    case None
    with tr have "r = Leaf" by (simp add: tree_at_None)
    with None x show ?thesis
      by (subst max_loop.simps) simp
  next
    case (Some b)
    with tr have "max_loop s b = Some (last (inorder r))"
      using Node.IH(2) by simp
    moreover from Some tr have "inorder r \<noteq> []"
      by (cases r) auto
    ultimately show ?thesis
      using Some by (subst max_loop.simps) simp
  qed
qed

lemma tree_at_Some:
  "tree_at h p par t \<Longrightarrow> t \<noteq> Leaf \<Longrightarrow> \<exists>b. p = Some b \<and> b \<in> set_tree t"
  by (cases t) auto

lemma successor_in_tree:
  assumes "tree_at (bst.heap s) (Some a) par t" and "distinct (inorder t)" and "n \<in> set_tree t"
  shows "successor_node s (Some n) =
           (case after (inorder t) n of
              Some m \<Rightarrow> Some (Inr (Some m))
            | None \<Rightarrow> map_option Inr (successor_loop s a par))"
  using assms
proof (induction t arbitrary: a par)
  case Leaf
  then show ?case by simp
next
  case (Node l x r)
  let ?h = "bst.heap s"
  from Node.prems(1) have x: "x = a" and par: "parent (?h ! a) = par"
    and tl: "tree_at ?h (left_child (?h ! a)) (Some a) l"
    and tr: "tree_at ?h (right_child (?h ! a)) (Some a) r"
    by simp_all
  from Node.prems(2) x have dl: "distinct (inorder l)" and dr: "distinct (inorder r)"
    and al: "a \<notin> set_tree l" and ar: "a \<notin> set_tree r"
    and lr: "set_tree l \<inter> set_tree r = {}"
    by auto
  have io: "inorder (Node l x r) = inorder l @ a # inorder r"
    using x by simp
  from Node.prems(3) x consider "n \<in> set_tree l" | "n = a" | "n \<in> set_tree r"
    by auto
  then show ?case
  proof cases
    case 1
    then have "l \<noteq> Leaf" by auto
    with tl obtain b where b: "left_child (?h ! a) = Some b" "b \<in> set_tree l"
      using tree_at_Some by blast
    have "right_child (?h ! a) \<noteq> Some b"
    proof
      assume "right_child (?h ! a) = Some b"
      with tr have "b \<in> set_tree r"
        using tree_at_root [of ?h b "Some a" r] by auto
      with b(2) lr show False by auto
    qed
    then have loop: "successor_loop s b (Some a) = Some (Some a)"
      by (simp add: successor_loop.simps [of s b "Some a"])
    from tl b(1) have "tree_at ?h (Some b) (Some a) l" by simp
    then have "successor_node s (Some n) =
           (case after (inorder l) n of
              Some m \<Rightarrow> Some (Inr (Some m))
            | None \<Rightarrow> map_option Inr (successor_loop s b (Some a)))"
      using dl 1 by (rule Node.IH(1))
    moreover have "after (inorder l @ a # inorder r) n =
        (case after (inorder l) n of Some m \<Rightarrow> Some m | None \<Rightarrow> Some a)"
      using 1 by (simp add: after_append_in split: option.splits)
    ultimately show ?thesis
      using loop io by (simp split: option.splits)
  next
    case 2
    have aft: "after (inorder l @ a # inorder r) a = first (inorder r)"
      using al by (simp add: after_append_notin)
    show ?thesis
    proof (cases "right_child (?h ! a)")
      case None
      with tr have "r = Leaf" by (simp add: tree_at_None)
      with None 2 par aft io show ?thesis
        by (simp add: successor_node_def)
    next
      case (Some c)
      with tr have "min_loop s c = Some (hd (inorder r))"
        by (simp add: min_loop_tree)
      moreover from Some tr have "inorder r \<noteq> []"
        by (cases r) auto
      ultimately show ?thesis
        using Some 2 aft io by (simp add: successor_node_def min_node_def first_hd)
    qed
  next
    case 3
    then have "r \<noteq> Leaf" by auto
    with tr obtain c where c: "right_child (?h ! a) = Some c" "c \<in> set_tree r"
      using tree_at_Some by blast
    then have loop: "successor_loop s c (Some a) = successor_loop s a par"
      using par by (simp add: successor_loop.simps [of s c "Some a"])
    from tr c(1) have "tree_at ?h (Some c) (Some a) r" by simp
    then have "successor_node s (Some n) =
           (case after (inorder r) n of
              Some m \<Rightarrow> Some (Inr (Some m))
            | None \<Rightarrow> map_option Inr (successor_loop s c (Some a)))"
      using dr 3 by (rule Node.IH(2))
    moreover have "n \<notin> set (inorder l)" "n \<noteq> a"
      using 3 lr ar by auto
    then have "after (inorder l @ a # inorder r) n = after (inorder r) n"
      by (simp add: after_append_notin)
    ultimately show ?thesis
      using loop io by (simp split: option.splits)
  qed
qed

lemma predecessor_in_tree:
  assumes "tree_at (bst.heap s) (Some a) par t" and "distinct (inorder t)" and "n \<in> set_tree t"
  shows "predecessor_node s (Some n) =
           (case after (rev (inorder t)) n of
              Some m \<Rightarrow> Some (Inr (Some m))
            | None \<Rightarrow> map_option Inr (predecessor_loop s a par))"
  using assms
proof (induction t arbitrary: a par)
  case Leaf
  then show ?case by simp
next
  case (Node l x r)
  let ?h = "bst.heap s"
  from Node.prems(1) have x: "x = a" and par: "parent (?h ! a) = par"
    and tl: "tree_at ?h (left_child (?h ! a)) (Some a) l"
    and tr: "tree_at ?h (right_child (?h ! a)) (Some a) r"
    by simp_all
  from Node.prems(2) x have dl: "distinct (inorder l)" and dr: "distinct (inorder r)"
    and al: "a \<notin> set_tree l" and ar: "a \<notin> set_tree r"
    and lr: "set_tree l \<inter> set_tree r = {}"
    by auto
  have io: "rev (inorder (Node l x r)) = rev (inorder r) @ a # rev (inorder l)"
    using x by simp
  from Node.prems(3) x consider "n \<in> set_tree r" | "n = a" | "n \<in> set_tree l"
    by auto
  then show ?case
  proof cases
    case 1
    then have "r \<noteq> Leaf" by auto
    with tr obtain b where b: "right_child (?h ! a) = Some b" "b \<in> set_tree r"
      using tree_at_Some by blast
    have "left_child (?h ! a) \<noteq> Some b"
    proof
      assume "left_child (?h ! a) = Some b"
      with tl have "b \<in> set_tree l"
        using tree_at_root [of ?h b "Some a" l] by auto
      with b(2) lr show False by auto
    qed
    then have loop: "predecessor_loop s b (Some a) = Some (Some a)"
      by (simp add: predecessor_loop.simps [of s b "Some a"])
    from tr b(1) have "tree_at ?h (Some b) (Some a) r" by simp
    then have "predecessor_node s (Some n) =
           (case after (rev (inorder r)) n of
              Some m \<Rightarrow> Some (Inr (Some m))
            | None \<Rightarrow> map_option Inr (predecessor_loop s b (Some a)))"
      using dr 1 by (rule Node.IH(2))
    moreover have "after (rev (inorder r) @ a # rev (inorder l)) n =
        (case after (rev (inorder r)) n of Some m \<Rightarrow> Some m | None \<Rightarrow> Some a)"
      using 1 by (simp add: after_append_in split: option.splits)
    ultimately show ?thesis
      using loop io by (simp split: option.splits)
  next
    case 2
    have aft: "after (rev (inorder r) @ a # rev (inorder l)) a = first (rev (inorder l))"
      using ar by (simp add: after_append_notin)
    show ?thesis
    proof (cases "left_child (?h ! a)")
      case None
      with tl have "l = Leaf" by (simp add: tree_at_None)
      with None 2 par aft io show ?thesis
        by (simp add: predecessor_node_def)
    next
      case (Some c)
      with tl have "max_loop s c = Some (last (inorder l))"
        by (simp add: max_loop_tree)
      moreover from Some tl have "inorder l \<noteq> []"
        by (cases l) auto
      ultimately show ?thesis
        using Some 2 aft io by (simp add: predecessor_node_def max_node_def first_hd hd_rev)
    qed
  next
    case 3
    then have "l \<noteq> Leaf" by auto
    with tl obtain c where c: "left_child (?h ! a) = Some c" "c \<in> set_tree l"
      using tree_at_Some by blast
    then have loop: "predecessor_loop s c (Some a) = predecessor_loop s a par"
      using par by (simp add: predecessor_loop.simps [of s c "Some a"])
    from tl c(1) have "tree_at ?h (Some c) (Some a) l" by simp
    then have "predecessor_node s (Some n) =
           (case after (rev (inorder l)) n of
              Some m \<Rightarrow> Some (Inr (Some m))
            | None \<Rightarrow> map_option Inr (predecessor_loop s c (Some a)))"
      using dl 3 by (rule Node.IH(1))
    moreover have "n \<notin> set (rev (inorder r))" "n \<noteq> a"
      using 3 lr al by auto
    then have "after (rev (inorder r) @ a # rev (inorder l)) n = after (rev (inorder l)) n"
      by (simp add: after_append_notin)
    ultimately show ?thesis
      using loop io by (simp split: option.splits)
  qed
qed

lemma successor_node_inorder:
  assumes "wf_bst s t" and "n \<in> set_tree t"
  shows "successor_node s (Some n) = Some (Inr (after (inorder t) n))"
proof -
  from assms have "t \<noteq> Leaf" by auto
  with assms(1) obtain a where a: "root s = Some a"
    using tree_at_Some unfolding wf_bst_def by blast
  with assms(1) have "tree_at (bst.heap s) (Some a) None t" and "distinct (inorder t)"
    by (simp_all add: wf_bst_def)
  then have "successor_node s (Some n) =
           (case after (inorder t) n of
              Some m \<Rightarrow> Some (Inr (Some m))
            | None \<Rightarrow> map_option Inr (successor_loop s a None))"
    using assms(2) by (rule successor_in_tree)
  then show ?thesis
    by (simp add: successor_loop.simps [of s a None] split: option.splits)
qed

lemma predecessor_node_inorder:
  assumes "wf_bst s t" and "n \<in> set_tree t"
  shows "predecessor_node s (Some n) = Some (Inr (after (rev (inorder t)) n))"
proof -
  from assms have "t \<noteq> Leaf" by auto
  with assms(1) obtain a where a: "root s = Some a"
    using tree_at_Some unfolding wf_bst_def by blast
  with assms(1) have "tree_at (bst.heap s) (Some a) None t" and "distinct (inorder t)"
    by (simp_all add: wf_bst_def)
  then have "predecessor_node s (Some n) =
           (case after (rev (inorder t)) n of
              Some m \<Rightarrow> Some (Inr (Some m))
            | None \<Rightarrow> map_option Inr (predecessor_loop s a None))"
    using assms(2) by (rule predecessor_in_tree)
  then show ?thesis
    by (simp add: predecessor_loop.simps [of s a None] split: option.splits)
qed

text \<open>
  C6. In a well-formed tree, if \<open>successor_node\<close> of a node \<open>n\<close> returns a node, then
  \<open>predecessor_node\<close> of that node returns \<open>n\<close>: it returns, it returns a node, and the
  node is \<open>n\<close>.
\<close>

theorem predecessor_of_successor:
  assumes "wf_bst s t" and "n \<in> set_tree t"
    and "successor_node s (Some n) = Some (Inr (Some sc))"
  shows "predecessor_node s (Some sc) = Some (Inr (Some n))"
proof -
  from assms have aft: "after (inorder t) n = Some sc"
    by (simp add: successor_node_inorder)
  then have "sc \<in> set_tree t"
    using after_in_set by fastforce
  with assms(1) have "predecessor_node s (Some sc) = Some (Inr (after (rev (inorder t)) sc))"
    by (rule predecessor_node_inorder)
  moreover from assms(1) aft have "after (rev (inorder t)) sc = Some n"
    by (simp add: wf_bst_def after_rev)
  ultimately show ?thesis by simp
qed

theorem predecessor_of_successor_witness:
  "wf_bst tree_2_1_3 (Node (Node Leaf 1 Leaf) 0 (Node Leaf 2 Leaf)) \<and>
   1 \<in> set_tree (Node (Node Leaf 1 Leaf) (0::nat) (Node Leaf 2 Leaf)) \<and>
   successor_node tree_2_1_3 (Some 1) = Some (Inr (Some 0)) \<and>
   predecessor_node tree_2_1_3 (Some 0) = Some (Inr (Some 1))"
proof -
  have a: "wf_bst tree_2_1_3 (Node (Node Leaf 1 Leaf) 0 (Node Leaf 2 Leaf))"
    by (simp add: wf_bst_def tree_2_1_3_def)
  have b: "1 \<in> set_tree (Node (Node Leaf 1 Leaf) (0::nat) (Node Leaf 2 Leaf))"
    by simp
  have c: "successor_node tree_2_1_3 (Some 1) = Some (Inr (Some 0))"
    by (simp add: successor_node_def successor_loop.simps tree_2_1_3_def)
  from predecessor_of_successor [OF a b c] a b c show ?thesis
    by simp
qed

section \<open>Insertion in both modes\<close>

lemma nth_update_field:
  "(\<And>y. g (f y) = g y) \<Longrightarrow> g (xs[a := f (xs ! a)] ! x) = g (xs ! x)"
  by (cases "a < length xs") (auto simp: nth_list_update list_update_beyond)

lemma key_at_set_parent [simp]: "key_at (set_parent s a v) = key_at s"
  by (rule ext) (simp add: key_at_def set_parent_def nth_update_field [where g = bst_node.key])

lemma key_at_set_left_child [simp]: "key_at (set_left_child s a v) = key_at s"
  by (rule ext) (simp add: key_at_def set_left_child_def nth_update_field [where g = bst_node.key])

lemma key_at_set_right_child [simp]: "key_at (set_right_child s a v) = key_at s"
  by (rule ext) (simp add: key_at_def set_right_child_def nth_update_field [where g = bst_node.key])

lemma key_at_root_update [simp]: "key_at (s\<lparr>root := v\<rparr>) = key_at s"
  by (rule ext) (simp add: key_at_def)

lemma cmp_fn_setters [simp]:
  "bst.cmp_fn (set_parent s a v) = bst.cmp_fn s"
  "bst.cmp_fn (set_left_child s a v) = bst.cmp_fn s"
  "bst.cmp_fn (set_right_child s a v) = bst.cmp_fn s"
  by (simp_all add: set_parent_def set_left_child_def set_right_child_def)

lemma root_setters [simp]:
  "root (set_parent s a v) = root s"
  "root (set_left_child s a v) = root s"
  "root (set_right_child s a v) = root s"
  by (simp_all add: set_parent_def set_left_child_def set_right_child_def)

lemma length_setters [simp]:
  "length (bst.heap (set_parent s a v)) = length (bst.heap s)"
  "length (bst.heap (set_left_child s a v)) = length (bst.heap s)"
  "length (bst.heap (set_right_child s a v)) = length (bst.heap s)"
  by (simp_all add: set_parent_def set_left_child_def set_right_child_def)

lemma key_at_insert_link [simp]: "key_at (insert_link s new_node prv) = key_at s"
  by (simp add: insert_link_def Let_def split: option.splits)

lemma cmp_fn_insert_link [simp]: "bst.cmp_fn (insert_link s new_node prv) = bst.cmp_fn s"
  by (simp add: insert_link_def Let_def split: option.splits)

lemma length_insert_link [simp]:
  "length (bst.heap (insert_link s new_node prv)) = length (bst.heap s)"
  by (simp add: insert_link_def Let_def split: option.splits)

lemma root_insert_link_Some [simp]: "root (insert_link s new_node (Some p)) = root s"
  by (simp add: insert_link_def Let_def)

lemma insert_link_frame:
  "x \<noteq> new_node \<Longrightarrow> x \<noteq> p \<Longrightarrow>
   bst.heap (insert_link s new_node (Some p)) ! x = bst.heap s ! x"
  by (simp add: insert_link_def Let_def set_parent_def set_left_child_def set_right_child_def)

lemma set_left_child_same:
  "left_child (bst.heap s ! a) = v \<Longrightarrow> set_left_child s a v = s"
  by (auto simp: set_left_child_def)

lemma set_right_child_same:
  "right_child (bst.heap s ! a) = v \<Longrightarrow> set_right_child s a v = s"
  by (auto simp: set_right_child_def)

lemma tree_at_frame:
  "tree_at h p par t \<Longrightarrow> length h' = length h \<Longrightarrow> (\<forall>x \<in> set_tree t. h' ! x = h ! x)
   \<Longrightarrow> tree_at h' p par t"
  by (induction t arbitrary: p par) auto

lemma descent_in:
  "t \<noteq> Leaf \<Longrightarrow> \<exists>p. descent s new_node t prv = Some p \<and> p \<in> set_tree t"
proof (induction t arbitrary: prv)
  case Leaf
  then show ?case by simp
next
  case (Node l a r)
  show ?case
  proof (cases "bst.cmp_fn s (key_at s new_node) (key_at s a) = LESS")
    case True
    show ?thesis
    proof (cases "l = Leaf")
      case L: True
      with True show ?thesis by simp
    next
      case False
      then obtain p where "descent s new_node l (Some a) = Some p" "p \<in> set_tree l"
        using Node.IH(1) by blast
      with True show ?thesis by simp
    qed
  next
    case False
    show ?thesis
    proof (cases "r = Leaf")
      case L: True
      with False show ?thesis by simp
    next
      case R: False
      then obtain p where "descent s new_node r (Some a) = Some p" "p \<in> set_tree r"
        using Node.IH(2) by blast
      with False show ?thesis by simp
    qed
  qed
qed

lemma insert_loop_descent:
  "tree_at (bst.heap s) p par t \<Longrightarrow>
   insert_loop s new_node prv p = Some (descent s new_node t prv)"
proof (induction t arbitrary: p par prv)
  case Leaf
  then show ?case
    by (simp add: insert_loop.simps [of s new_node prv None])
next
  case (Node l a r)
  then have p: "p = Some a"
    and tl: "tree_at (bst.heap s) (left_child (bst.heap s ! a)) (Some a) l"
    and tr: "tree_at (bst.heap s) (right_child (bst.heap s ! a)) (Some a) r"
    by simp_all
  from tl have "insert_loop s new_node (Some a) (left_child (bst.heap s ! a))
      = Some (descent s new_node l (Some a))"
    by (rule Node.IH(1))
  moreover from tr have "insert_loop s new_node (Some a) (right_child (bst.heap s ! a))
      = Some (descent s new_node r (Some a))"
    by (rule Node.IH(2))
  ultimately show ?case
    using p by (simp add: insert_loop.simps [of s new_node prv "Some a"])
qed

lemma recursive_insert_descent:
  assumes "tree_at (bst.heap s) (Some a) par t" and "distinct (inorder t)"
    and "new_node \<notin> set_tree t"
  shows "recursive_insert s new_node (Some a) par
           = Some (a, insert_link s new_node (descent s new_node t par))"
  using assms
proof (induction t arbitrary: a par)
  case Leaf
  then show ?case by simp
next
  case (Node l x r)
  let ?h = "bst.heap s"
  from Node.prems(1) have x: "x = a"
    and tl: "tree_at ?h (left_child (?h ! a)) (Some a) l"
    and tr: "tree_at ?h (right_child (?h ! a)) (Some a) r"
    by simp_all
  from Node.prems(2) x have dl: "distinct (inorder l)" and dr: "distinct (inorder r)"
    and al: "a \<notin> set_tree l" and ar: "a \<notin> set_tree r"
    by auto
  from Node.prems(3) x have nl: "new_node \<notin> set_tree l" and nr: "new_node \<notin> set_tree r"
    and na: "a \<noteq> new_node"
    by auto
  show ?case
  proof (cases "bst.cmp_fn s (key_at s new_node) (key_at s a) = LESS")
    case True
    show ?thesis
    proof (cases "l = Leaf")
      case L: True
      with tl have "left_child (?h ! a) = None" by simp
      with True L x show ?thesis
        by (simp add: recursive_insert.simps [of s new_node "Some a" par]
            recursive_insert.simps [of s new_node None "Some a"] insert_link_def)
    next
      case False
      with tl obtain b where b: "left_child (?h ! a) = Some b"
        using tree_at_Some by blast
      from False obtain p where p: "descent s new_node l (Some a) = Some p" "p \<in> set_tree l"
        using descent_in by blast
      from tl b have "tree_at ?h (Some b) (Some a) l" by simp
      then have rec: "recursive_insert s new_node (Some b) (Some a)
           = Some (b, insert_link s new_node (Some p))"
        using dl nl p(1) Node.IH(1) by simp
      have "a \<noteq> p" using p(2) al by auto
      then have "bst.heap (insert_link s new_node (Some p)) ! a = ?h ! a"
        using na by (simp add: insert_link_frame)
      then have "set_left_child (insert_link s new_node (Some p)) a (Some b)
          = insert_link s new_node (Some p)"
        using b by (simp add: set_left_child_same)
      with True x b rec p(1) show ?thesis
        by (simp add: recursive_insert.simps [of s new_node "Some a" par])
    qed
  next
    case G: False
    show ?thesis
    proof (cases "r = Leaf")
      case L: True
      with tr have "right_child (?h ! a) = None" by simp
      with G L x show ?thesis
        by (simp add: recursive_insert.simps [of s new_node "Some a" par]
            recursive_insert.simps [of s new_node None "Some a"] insert_link_def)
    next
      case False
      with tr obtain b where b: "right_child (?h ! a) = Some b"
        using tree_at_Some by blast
      from False obtain p where p: "descent s new_node r (Some a) = Some p" "p \<in> set_tree r"
        using descent_in by blast
      from tr b have "tree_at ?h (Some b) (Some a) r" by simp
      then have rec: "recursive_insert s new_node (Some b) (Some a)
           = Some (b, insert_link s new_node (Some p))"
        using dr nr p(1) Node.IH(2) by simp
      have "a \<noteq> p" using p(2) ar by auto
      then have "bst.heap (insert_link s new_node (Some p)) ! a = ?h ! a"
        using na by (simp add: insert_link_frame)
      then have "set_right_child (insert_link s new_node (Some p)) a (Some b)
          = insert_link s new_node (Some p)"
        using b by (simp add: set_right_child_same)
      with G x b rec p(1) show ?thesis
        by (simp add: recursive_insert.simps [of s new_node "Some a" par])
    qed
  qed
qed

lemma heap_setters_nth:
  "bst.heap (set_parent s a v) ! x =
     (if x = a \<and> a < length (bst.heap s) then (bst.heap s ! a)\<lparr>parent := v\<rparr> else bst.heap s ! x)"
  "bst.heap (set_left_child s a v) ! x =
     (if x = a \<and> a < length (bst.heap s) then (bst.heap s ! a)\<lparr>left_child := v\<rparr> else bst.heap s ! x)"
  "bst.heap (set_right_child s a v) ! x =
     (if x = a \<and> a < length (bst.heap s) then (bst.heap s ! a)\<lparr>right_child := v\<rparr> else bst.heap s ! x)"
  by (auto simp: set_parent_def set_left_child_def set_right_child_def list_update_beyond)

lemma insert_link_new:
  "new_node < length (bst.heap s) \<Longrightarrow> p \<noteq> new_node \<Longrightarrow>
   bst.heap (insert_link s new_node (Some p)) ! new_node
     = (bst.heap s ! new_node)\<lparr>parent := Some p\<rparr>"
  by (simp add: insert_link_def Let_def heap_setters_nth)

lemma insert_link_prv:
  "p < length (bst.heap s) \<Longrightarrow> p \<noteq> new_node \<Longrightarrow>
   bst.heap (insert_link s new_node (Some p)) ! p
     = (if bst.cmp_fn s (key_at s new_node) (key_at s p) = LESS
        then (bst.heap s ! p)\<lparr>left_child := Some new_node\<rparr>
        else (bst.heap s ! p)\<lparr>right_child := Some new_node\<rparr>)"
  by (simp add: insert_link_def Let_def heap_setters_nth)

lemma tree_at_insert_link_frame:
  assumes "tree_at (bst.heap s) q par t" and "new_node \<notin> set_tree t" and "p \<notin> set_tree t"
  shows "tree_at (bst.heap (insert_link s new_node (Some p))) q par t"
proof (rule tree_at_frame [OF assms(1)])
  show "length (bst.heap (insert_link s new_node (Some p))) = length (bst.heap s)"
    by simp
  show "\<forall>x \<in> set_tree t. bst.heap (insert_link s new_node (Some p)) ! x = bst.heap s ! x"
  proof
    fix x assume "x \<in> set_tree t"
    with assms(2,3) have "x \<noteq> new_node" "x \<noteq> p" by auto
    then show "bst.heap (insert_link s new_node (Some p)) ! x = bst.heap s ! x"
      by (rule insert_link_frame)
  qed
qed

lemma insert_link_tree:
  assumes "tree_at (bst.heap s) (Some a) par t" and "distinct (inorder t)"
    and "new_node \<notin> set_tree t" and "new_node < length (bst.heap s)"
    and "left_child (bst.heap s ! new_node) = None"
    and "right_child (bst.heap s ! new_node) = None"
  shows "tree_at (bst.heap (insert_link s new_node (descent s new_node t par))) (Some a) par
           (spec_insert (bst.cmp_fn s) (key_at s) (key_at s new_node) new_node t)"
  using assms(1-3)
proof (induction t arbitrary: a par)
  case Leaf
  then show ?case by simp
next
  case (Node l x r)
  let ?h = "bst.heap s"
  let ?ins = "spec_insert (bst.cmp_fn s) (key_at s) (key_at s new_node) new_node"
  from Node.prems(1) have x: "x = a" and a: "a < length ?h" and par: "parent (?h ! a) = par"
    and tl: "tree_at ?h (left_child (?h ! a)) (Some a) l"
    and tr: "tree_at ?h (right_child (?h ! a)) (Some a) r"
    by simp_all
  from Node.prems(2) x have dl: "distinct (inorder l)" and dr: "distinct (inorder r)"
    and al: "a \<notin> set_tree l" and ar: "a \<notin> set_tree r"
    and lr: "set_tree l \<inter> set_tree r = {}"
    by auto
  from Node.prems(3) x have nl: "new_node \<notin> set_tree l" and nr: "new_node \<notin> set_tree r"
    and na: "a \<noteq> new_node"
    by auto
  note new = assms(4-6)
  show ?case
  proof (cases "bst.cmp_fn s (key_at s new_node) (key_at s a) = LESS")
    case True
    show ?thesis
    proof (cases "l = Leaf")
      case L: True
      let ?h' = "bst.heap (insert_link s new_node (Some a))"
      have ha: "?h' ! a = (?h ! a)\<lparr>left_child := Some new_node\<rparr>"
        using a na True by (simp add: insert_link_prv)
      have hn: "?h' ! new_node = (?h ! new_node)\<lparr>parent := Some a\<rparr>"
        using new(1) na by (simp add: insert_link_new)
      have "tree_at ?h' (right_child (?h ! a)) (Some a) r"
        using tr nr ar by (rule tree_at_insert_link_frame)
      with ha hn a par new True L x show ?thesis
        by simp
    next
      case False
      with tl obtain b where b: "left_child (?h ! a) = Some b"
        using tree_at_Some by blast
      from False obtain p where p: "descent s new_node l (Some a) = Some p" "p \<in> set_tree l"
        using descent_in by blast
      let ?h' = "bst.heap (insert_link s new_node (Some p))"
      from tl b have "tree_at ?h (Some b) (Some a) l" by simp
      then have "tree_at ?h' (Some b) (Some a) (?ins l)"
        using dl nl p(1) Node.IH(1) by fastforce
      moreover have "a \<noteq> p" using p(2) al by auto
      then have "?h' ! a = ?h ! a"
        using na by (simp add: insert_link_frame)
      moreover have "p \<notin> set_tree r" using p(2) lr by auto
      then have "tree_at ?h' (right_child (?h ! a)) (Some a) r"
        using tr nr by (simp add: tree_at_insert_link_frame)
      ultimately show ?thesis
        using True x a par b p(1) by simp
    qed
  next
    case G: False
    show ?thesis
    proof (cases "r = Leaf")
      case L: True
      let ?h' = "bst.heap (insert_link s new_node (Some a))"
      have ha: "?h' ! a = (?h ! a)\<lparr>right_child := Some new_node\<rparr>"
        using a na G by (simp add: insert_link_prv)
      have hn: "?h' ! new_node = (?h ! new_node)\<lparr>parent := Some a\<rparr>"
        using new(1) na by (simp add: insert_link_new)
      have "tree_at ?h' (left_child (?h ! a)) (Some a) l"
        using tl nl al by (rule tree_at_insert_link_frame)
      with ha hn a par new G L x show ?thesis
        by simp
    next
      case False
      with tr obtain b where b: "right_child (?h ! a) = Some b"
        using tree_at_Some by blast
      from False obtain p where p: "descent s new_node r (Some a) = Some p" "p \<in> set_tree r"
        using descent_in by blast
      let ?h' = "bst.heap (insert_link s new_node (Some p))"
      from tr b have "tree_at ?h (Some b) (Some a) r" by simp
      then have "tree_at ?h' (Some b) (Some a) (?ins r)"
        using dr nr p(1) Node.IH(2) by fastforce
      moreover have "a \<noteq> p" using p(2) ar by auto
      then have "?h' ! a = ?h ! a"
        using na by (simp add: insert_link_frame)
      moreover have "p \<notin> set_tree l" using p(2) lr by auto
      then have "tree_at ?h' (left_child (?h ! a)) (Some a) l"
        using tl nl by (simp add: tree_at_insert_link_frame)
      ultimately show ?thesis
        using G x a par b p(1) by simp
    qed
  qed
qed

lemma set_tree_spec_insert:
  "set_tree (spec_insert cmp keyof k new_node t) = insert new_node (set_tree t)"
  by (induction t) auto

lemma distinct_spec_insert:
  "distinct (inorder t) \<Longrightarrow> new_node \<notin> set_tree t \<Longrightarrow>
   distinct (inorder (spec_insert cmp keyof k new_node t))"
proof (induction t)
  case Leaf
  then show ?case by simp
next
  case (Node l a r)
  have "set (inorder (spec_insert cmp keyof k new_node l)) = insert new_node (set_tree l)"
    and "set (inorder (spec_insert cmp keyof k new_node r)) = insert new_node (set_tree r)"
    by (simp_all add: set_tree_spec_insert)
  with Node show ?case
    by auto
qed

lemma tree_at_bound: "tree_at h p par t \<Longrightarrow> x \<in> set_tree t \<Longrightarrow> x < length h"
  by (induction t arbitrary: p par) auto

lemma BST_Node_facts:
  "fst (BST_Node k s) = length (bst.heap s)"
  "root (snd (BST_Node k s)) = root s"
  "bst.cmp_fn (snd (BST_Node k s)) = bst.cmp_fn s"
  "length (bst.heap (snd (BST_Node k s))) = Suc (length (bst.heap s))"
  "bst.heap (snd (BST_Node k s)) ! length (bst.heap s)
     = \<lparr>bst_node.key = k, parent = None, left_child = None, right_child = None\<rparr>"
  "key_at (snd (BST_Node k s)) (length (bst.heap s)) = k"
  by (simp_all add: BST_Node_def key_at_def)

lemma BST_Node_tree:
  "wf_bst s t \<Longrightarrow> tree_at (bst.heap (snd (BST_Node k s))) (root s) None t"
  by (simp add: wf_bst_def BST_Node_def tree_at_append)

lemma wf_bst_fresh: "wf_bst s t \<Longrightarrow> length (bst.heap s) \<notin> set_tree t"
  using tree_at_bound [of "bst.heap s" "root s" None t "length (bst.heap s)"]
  by (auto simp: wf_bst_def)

lemma insert_node_iterative:
  assumes "wf_bst s t"
  shows "insert_node k (PyStr ''i'') s = Some (Inr (length (bst.heap s)), inserted k s t)"
proof -
  let ?s1 = "snd (BST_Node k s)"
  let ?n = "length (bst.heap s)"
  have "insert_loop ?s1 ?n None (root ?s1) = Some (descent ?s1 ?n t None)"
    using BST_Node_tree [OF assms, of k] by (simp add: insert_loop_descent BST_Node_facts)
  then have "iterative_insert ?s1 ?n = Some (?n, inserted k s t)"
    by (simp add: iterative_insert_def inserted_def)
  then show ?thesis
    by (simp add: insert_node_def split_def BST_Node_facts(1))
qed

lemma insert_node_recursive:
  assumes "wf_bst s t"
  shows "insert_node k (PyStr ''r'') s = Some (Inr (length (bst.heap s)), inserted k s t)"
proof -
  let ?s1 = "snd (BST_Node k s)"
  let ?n = "length (bst.heap s)"
  have t1: "tree_at (bst.heap ?s1) (root s) None t"
    using assms by (rule BST_Node_tree)
  show ?thesis
  proof (cases "t = Leaf")
    case True
    with t1 have "root s = None" by simp
    then have "recursive_insert ?s1 ?n (root ?s1) None = Some (?n, set_parent ?s1 ?n None)"
      by (simp add: BST_Node_facts recursive_insert.simps [of ?s1 ?n None None])
    moreover have "inserted k s t = (set_parent ?s1 ?n None)\<lparr>root := Some ?n\<rparr>"
      using True by (simp add: inserted_def insert_link_def)
    ultimately show ?thesis
      by (simp add: insert_node_def split_def BST_Node_facts(1,2))
  next
    case False
    with t1 obtain a where a: "root s = Some a"
      using tree_at_Some by blast
    from False obtain p where p: "descent ?s1 ?n t None = Some p"
      using descent_in by blast
    from t1 a have "tree_at (bst.heap ?s1) (Some a) None t" by simp
    moreover from assms have "distinct (inorder t)" by (simp add: wf_bst_def)
    moreover from assms have "?n \<notin> set_tree t" by (rule wf_bst_fresh)
    ultimately have "recursive_insert ?s1 ?n (Some a) None
        = Some (a, insert_link ?s1 ?n (descent ?s1 ?n t None))"
      by (rule recursive_insert_descent)
    then have "recursive_insert ?s1 ?n (root ?s1) None = Some (a, inserted k s t)"
      using a by (simp add: inserted_def BST_Node_facts)
    moreover have "root (inserted k s t) = Some a"
      using a p by (simp add: inserted_def BST_Node_facts)
    then have "(inserted k s t)\<lparr>root := Some a\<rparr> = inserted k s t"
      by simp
    ultimately show ?thesis
      by (simp add: insert_node_def split_def BST_Node_facts(1,2))
  qed
qed

lemma key_at_inserted:
  "key_at (inserted k s t) = key_at (snd (BST_Node k s))"
  by (simp add: inserted_def)

lemma inserted_wf:
  assumes "wf_bst s t"
  shows "wf_bst (inserted k s t)
           (spec_insert (bst.cmp_fn s) (key_at (inserted k s t)) k (length (bst.heap s)) t)"
proof -
  let ?s1 = "snd (BST_Node k s)"
  let ?n = "length (bst.heap s)"
  let ?t' = "spec_insert (bst.cmp_fn s) (key_at (inserted k s t)) k ?n t"
  have t1: "tree_at (bst.heap ?s1) (root s) None t"
    using assms by (rule BST_Node_tree)
  from assms have d: "distinct (inorder t)" by (simp add: wf_bst_def)
  from assms have fresh: "?n \<notin> set_tree t" by (rule wf_bst_fresh)
  have t': "?t' = spec_insert (bst.cmp_fn ?s1) (key_at ?s1) (key_at ?s1 ?n) ?n t"
    by (simp add: key_at_inserted BST_Node_facts)
  have "tree_at (bst.heap (inserted k s t)) (root (inserted k s t)) None ?t'"
  proof (cases "t = Leaf")
    case True
    then show ?thesis
      by (simp add: inserted_def insert_link_def heap_setters_nth BST_Node_facts)
  next
    case False
    with t1 obtain a where a: "root s = Some a"
      using tree_at_Some by blast
    from False obtain p where p: "descent ?s1 ?n t None = Some p"
      using descent_in by blast
    from t1 a have "tree_at (bst.heap ?s1) (Some a) None t" by simp
    then have "tree_at (bst.heap (insert_link ?s1 ?n (descent ?s1 ?n t None))) (Some a) None
        (spec_insert (bst.cmp_fn ?s1) (key_at ?s1) (key_at ?s1 ?n) ?n t)"
      using d fresh by (rule insert_link_tree) (simp_all add: BST_Node_facts)
    moreover have "root (inserted k s t) = Some a"
      using a p by (simp add: inserted_def BST_Node_facts)
    ultimately show ?thesis
      using t' by (simp add: inserted_def)
  qed
  moreover have "distinct (inorder ?t')"
    using d fresh by (rule distinct_spec_insert)
  ultimately show ?thesis
    by (simp add: wf_bst_def)
qed

lemma subtrees_set_tree: "u \<in> subtrees t \<Longrightarrow> set_tree u \<subseteq> set_tree t"
  by (induction t) auto

lemma spec_insert_side:
  assumes "new_node \<notin> set_tree t"
    and "Node l a r \<in> subtrees (spec_insert cmp keyof k new_node t)"
    and "new_node \<in> set_tree l \<union> set_tree r"
  shows "(new_node \<in> set_tree l \<longleftrightarrow> cmp k (keyof a) = LESS) \<and>
         (new_node \<in> set_tree r \<longleftrightarrow> cmp k (keyof a) \<noteq> LESS)"
  using assms
proof (induction t)
  case Leaf
  then show ?case by simp
next
  case (Node tl b tr)
  let ?ins = "spec_insert cmp keyof k new_node"
  from Node.prems(1) have ntl: "new_node \<notin> set_tree tl" and ntr: "new_node \<notin> set_tree tr"
    by simp_all
  have untouched: False if "Node l a r \<in> subtrees u" "new_node \<notin> set_tree u" for u
  proof -
    from that(1) have "set_tree (Node l a r) \<subseteq> set_tree u"
      by (rule subtrees_set_tree)
    with Node.prems(3) that(2) show False by auto
  qed
  show ?case
  proof (cases "cmp k (keyof b) = LESS")
    case True
    with Node.prems(2) consider "Node l a r = Node (?ins tl) b tr"
      | "Node l a r \<in> subtrees (?ins tl)" | "Node l a r \<in> subtrees tr"
      by auto
    then show ?thesis
    proof cases
      case 1
      with True ntr show ?thesis
        by (simp add: set_tree_spec_insert)
    next
      case 2
      from ntl 2 Node.prems(3) show ?thesis
        by (rule Node.IH(1))
    next
      case 3
      with ntr show ?thesis
        using untouched by blast
    qed
  next
    case False
    with Node.prems(2) consider "Node l a r = Node tl b (?ins tr)"
      | "Node l a r \<in> subtrees tl" | "Node l a r \<in> subtrees (?ins tr)"
      by auto
    then show ?thesis
    proof cases
      case 1
      with False ntl show ?thesis
        by (simp add: set_tree_spec_insert)
    next
      case 2
      with ntl show ?thesis
        using untouched by blast
    next
      case 3
      from ntr 3 Node.prems(3) show ?thesis
        by (rule Node.IH(2))
    qed
  qed
qed

lemma key_at_inserted_old:
  "a < length (bst.heap s) \<Longrightarrow> key_at (inserted k s t) a = key_at s a"
  by (simp add: key_at_inserted) (simp add: key_at_def BST_Node_def nth_append)

lemma key_at_inserted_new: "key_at (inserted k s t) (length (bst.heap s)) = k"
  by (simp add: key_at_inserted BST_Node_facts)

lemma wf_bst_init: "wf_bst (BST_init f) Leaf"
  by (simp add: wf_bst_def BST_init_def)

lemma insert_all_agree:
  "wf_bst s t \<Longrightarrow>
   insert_all (PyStr ''i'') ks s = insert_all (PyStr ''r'') ks s \<and>
   (\<exists>s' t'. insert_all (PyStr ''i'') ks s = Some (Inr s') \<and> wf_bst s' t')"
proof (induction ks arbitrary: s t)
  case Nil
  then show ?case by auto
next
  case (Cons k ks)
  from Cons.prems have "wf_bst (inserted k s t)
      (spec_insert (bst.cmp_fn s) (key_at (inserted k s t)) k (length (bst.heap s)) t)"
    by (rule inserted_wf)
  then have "insert_all (PyStr ''i'') ks (inserted k s t) = insert_all (PyStr ''r'') ks (inserted k s t) \<and>
   (\<exists>s' t'. insert_all (PyStr ''i'') ks (inserted k s t) = Some (Inr s') \<and> wf_bst s' t')"
    by (rule Cons.IH)
  then have eq: "insert_all (PyStr ''i'') ks (inserted k s t)
        = insert_all (PyStr ''r'') ks (inserted k s t)"
    and "\<exists>s' t'. insert_all (PyStr ''i'') ks (inserted k s t) = Some (Inr s') \<and> wf_bst s' t'"
    by (rule conjunct1, rule conjunct2)
  then obtain s' t'
    where res: "insert_all (PyStr ''i'') ks (inserted k s t) = Some (Inr s')" and wf: "wf_bst s' t'"
    by blast
  have i: "insert_all (PyStr ''i'') (k # ks) s = insert_all (PyStr ''i'') ks (inserted k s t)"
    by (simp add: insert_node_iterative [OF Cons.prems])
  have r: "insert_all (PyStr ''r'') (k # ks) s = insert_all (PyStr ''r'') ks (inserted k s t)"
    by (simp add: insert_node_recursive [OF Cons.prems])
  from i r eq have "insert_all (PyStr ''i'') (k # ks) s = insert_all (PyStr ''r'') (k # ks) s"
    by simp
  moreover from i res have "insert_all (PyStr ''i'') (k # ks) s = Some (Inr s')"
    by simp
  ultimately show ?case
    using wf by (intro conjI exI [of _ s'] exI [of _ t'])
qed

text \<open>
  C4. For every sequence of keys, inserting them all into an empty tree with mode 'i' and
  inserting them all with mode 'r' give the same result: both runs return, and they
  return the same state, that is, the same root and the same node objects with the same
  keys, child references and parent references. The state holds a well-formed tree.
\<close>

theorem insert_modes_same_tree:
  "insert_all (PyStr ''i'') ks (BST_init f) = insert_all (PyStr ''r'') ks (BST_init f) \<and>
   (\<exists>s t. insert_all (PyStr ''i'') ks (BST_init f) = Some (Inr s) \<and> wf_bst s t)"
  using wf_bst_init by (rule insert_all_agree)

text \<open>
  C5. On a well-formed tree \<open>t\<close>, \<open>insert_node\<close> in either mode returns the new node,
  which holds the new key, leaves the keys of the old nodes as they are, and yields the
  tree that the specification's walk describes. In that tree, at every node \<open>a\<close> above
  the new node, the new node is in the left subtree exactly when \<open>cmp_fn\<close> reports the
  new key LESS than the key of \<open>a\<close>, and in the right subtree otherwise; in particular
  it is in the right subtree when the keys compare EQUAL.
\<close>

theorem insert_node_descent:
  assumes "wf_bst s t" and "mode = PyStr ''i'' \<or> mode = PyStr ''r''"
  shows "\<exists>s'. insert_node k mode s = Some (Inr (length (bst.heap s)), s') \<and>
           key_at s' (length (bst.heap s)) = k \<and>
           (\<forall>a \<in> set_tree t. key_at s' a = key_at s a) \<and>
           wf_bst s' (spec_insert (bst.cmp_fn s) (key_at s') k (length (bst.heap s)) t) \<and>
           (\<forall>l a r. Node l a r \<in> subtrees (spec_insert (bst.cmp_fn s) (key_at s') k (length (bst.heap s)) t)
              \<longrightarrow> length (bst.heap s) \<in> set_tree l \<union> set_tree r
              \<longrightarrow> (length (bst.heap s) \<in> set_tree l \<longleftrightarrow> bst.cmp_fn s k (key_at s' a) = LESS) \<and>
                  (length (bst.heap s) \<in> set_tree r \<longleftrightarrow> bst.cmp_fn s k (key_at s' a) \<noteq> LESS) \<and>
                  (bst.cmp_fn s k (key_at s' a) = EQUAL \<longrightarrow> length (bst.heap s) \<in> set_tree r))"
proof -
  let ?s' = "inserted k s t"
  let ?n = "length (bst.heap s)"
  let ?t' = "spec_insert (bst.cmp_fn s) (key_at ?s') k ?n t"
  have ret: "insert_node k mode s = Some (Inr ?n, ?s')"
    using assms insert_node_iterative insert_node_recursive by fastforce
  have new: "key_at ?s' ?n = k"
    by (rule key_at_inserted_new)
  have old: "\<forall>a \<in> set_tree t. key_at ?s' a = key_at s a"
  proof
    fix a assume "a \<in> set_tree t"
    with assms(1) have "a < ?n"
      using tree_at_bound by (fastforce simp: wf_bst_def)
    then show "key_at ?s' a = key_at s a"
      by (rule key_at_inserted_old)
  qed
  have wf: "wf_bst ?s' ?t'"
    using assms(1) by (rule inserted_wf)
  have side: "\<forall>l a r. Node l a r \<in> subtrees ?t'
              \<longrightarrow> ?n \<in> set_tree l \<union> set_tree r
              \<longrightarrow> (?n \<in> set_tree l \<longleftrightarrow> bst.cmp_fn s k (key_at ?s' a) = LESS) \<and>
                  (?n \<in> set_tree r \<longleftrightarrow> bst.cmp_fn s k (key_at ?s' a) \<noteq> LESS) \<and>
                  (bst.cmp_fn s k (key_at ?s' a) = EQUAL \<longrightarrow> ?n \<in> set_tree r)"
  proof (intro allI impI)
    fix l a r
    assume sub: "Node l a r \<in> subtrees ?t'" and inn: "?n \<in> set_tree l \<union> set_tree r"
    from assms(1) have "?n \<notin> set_tree t" by (rule wf_bst_fresh)
    then have "(?n \<in> set_tree l \<longleftrightarrow> bst.cmp_fn s k (key_at ?s' a) = LESS) \<and>
                  (?n \<in> set_tree r \<longleftrightarrow> bst.cmp_fn s k (key_at ?s' a) \<noteq> LESS)"
      using sub inn by (rule spec_insert_side)
    then show "(?n \<in> set_tree l \<longleftrightarrow> bst.cmp_fn s k (key_at ?s' a) = LESS) \<and>
                  (?n \<in> set_tree r \<longleftrightarrow> bst.cmp_fn s k (key_at ?s' a) \<noteq> LESS) \<and>
                  (bst.cmp_fn s k (key_at ?s' a) = EQUAL \<longrightarrow> ?n \<in> set_tree r)"
      by (auto simp: EQUAL_def LESS_def)
  qed
  from ret new old wf side show ?thesis
    by (intro exI [of _ ?s'] conjI) assumption+
qed

theorem insert_node_descent_witness:
  "wf_bst tree_5_8 (Node Leaf 0 (Node Leaf 1 Leaf)) \<and>
   (PyStr ''r'' = PyStr ''i'' \<or> PyStr ''r'' = PyStr ''r'') \<and>
   insert_node 5 (PyStr ''r'') tree_5_8 = Some (Inr 2, tree_5_8_5) \<and>
   wf_bst tree_5_8_5 (Node Leaf 0 (Node (Node Leaf 2 Leaf) 1 Leaf)) \<and>
   bst.cmp_fn tree_5_8 5 (key_at tree_5_8_5 0) = EQUAL \<and>
   bst.cmp_fn tree_5_8 5 (key_at tree_5_8_5 1) = LESS"
proof -
  let ?t = "Node Leaf 0 (Node Leaf 1 Leaf)"
  have a: "wf_bst tree_5_8 ?t"
    by (simp add: wf_bst_def tree_5_8_def)
  have b: "PyStr ''r'' = PyStr ''i'' \<or> PyStr ''r'' = PyStr ''r''"
    by simp
  have e: "insert_node 5 (PyStr ''r'') tree_5_8 = Some (Inr 2, tree_5_8_5)"
    by (simp add: bst_eval tree_5_8_def tree_5_8_5_def)
  have k: "key_at tree_5_8_5 0 = 5" "key_at tree_5_8_5 1 = 8" "key_at tree_5_8_5 (Suc 0) = 8"
    by (simp_all add: key_at_def tree_5_8_5_def)
  have c: "bst.cmp_fn tree_5_8 = int_cmp"
    by (simp add: tree_5_8_def)
  have len: "length (bst.heap tree_5_8) = 2"
    by (simp add: tree_5_8_def)
  from insert_node_descent [OF a b, of 5] obtain s'
    where ret: "insert_node 5 (PyStr ''r'') tree_5_8 = Some (Inr (length (bst.heap tree_5_8)), s')"
      and wf: "wf_bst s' (spec_insert (bst.cmp_fn tree_5_8) (key_at s') 5 (length (bst.heap tree_5_8)) ?t)"
    by auto
  from ret e have "s' = tree_5_8_5"
    by simp
  with wf have "wf_bst tree_5_8_5 (Node Leaf 0 (Node (Node Leaf 2 Leaf) 1 Leaf))"
    by (simp add: c len k int_cmp_def LESS_def)
  with a b e show ?thesis
    by (simp add: c k int_cmp_def LESS_def EQUAL_def)
qed

end
